theory Spec2Isabelle
  imports Complex_Main
begin

section \<open>Beam-vehicle selection with multi-armed bandits: the model\<close>

text \<open>
  The development embeds the allocation core of \<^verbatim>\<open>paper-cmab.py\<close>: the per-beam
  statistics (\<^verbatim>\<open>Stats\<close>), the context encoders (\<^verbatim>\<open>get_context\<close>), the four selection
  algorithms and the per-step allocation loop (\<^verbatim>\<open>do_mobility\<close>).

  Simulation times, durations and channel qualities are Python floats; they are modelled
  as \<^typ>\<open>real\<close>, so rounding is idealised. Counters are Python integers, modelled as
  \<^typ>\<open>int\<close>. Exceptions are values of \<open>py_error + 'a\<close>.
\<close>

datatype py_error = TypeError | KeyError | AttributeError

subsection \<open>Per-beam statistics (class \<^verbatim>\<open>Stats\<close>)\<close>

record Stats =
  conn_start_time :: "real option"
  total_time :: real
  total_conn :: int

definition Stats_init :: Stats where
  "Stats_init = \<lparr>conn_start_time = None, total_time = 0, total_conn = 0\<rparr>"

text \<open>\<^verbatim>\<open>conn_begin\<close> is a plain assignment: it has no check and cannot raise.\<close>

definition conn_begin :: "real \<Rightarrow> Stats \<Rightarrow> Stats" where
  "conn_begin sim_time s = s\<lparr>conn_start_time := Some sim_time\<rparr>"

text \<open>
  \<^verbatim>\<open>conn_end\<close> evaluates \<^verbatim>\<open>sim_time - self.conn_start_time\<close> first; with the start time
  still \<^verbatim>\<open>None\<close> the subtraction raises \<^verbatim>\<open>TypeError\<close> before any field is written.
\<close>

definition conn_end :: "real \<Rightarrow> Stats \<Rightarrow> py_error + Stats" where
  "conn_end sim_time s =
     (case conn_start_time s of
        None \<Rightarrow> Inl TypeError
      | Some start \<Rightarrow>
          Inr (s\<lparr>total_time := total_time s + (sim_time - start),
                 total_conn := total_conn s + 1\<rparr>))"

definition get_average_connection_time :: "Stats \<Rightarrow> real" where
  "get_average_connection_time s =
     (if total_conn s = 0 then 0 else total_time s / real_of_int (total_conn s))"

definition get_connection_count :: "Stats \<Rightarrow> int" where
  "get_connection_count s = total_conn s"

definition reset :: "Stats \<Rightarrow> Stats" where
  "reset s = s\<lparr>total_time := 0, total_conn := 0\<rparr>"

subsection \<open>Nodes and the external collaborators\<close>

datatype node_type = BS | Vehicle

text \<open>
  A node object is identified by its \<^verbatim>\<open>id\<close> string and its \<^verbatim>\<open>type\<close>; dictionaries keyed
  by node objects become maps keyed by \<open>node\<close>.
\<close>

datatype node = Node (node_id: string) (node_kind: node_type)

text \<open>
  What the simulator answers during one step. A signal is represented by its
  \<^verbatim>\<open>quality\<close>. \<open>unicast e a b\<close> is \<^verbatim>\<open>a.transceiver.unicast(signal, b)\<close>: the received
  signal, or \<open>None\<close>. \<open>broadcast e b\<close> is the list of (node, signal) pairs reached by a
  beacon of \<open>b\<close>. The remaining fields are the vehicle attributes read by the contextual
  encoder.
\<close>

record env =
  broadcast :: "node \<Rightarrow> (node \<times> real) list"
  unicast :: "node \<Rightarrow> node \<Rightarrow> real option"
  speed :: "node \<Rightarrow> real"
  distance_to :: "node \<Rightarrow> node \<Rightarrow> real"
  azimuth :: "node \<Rightarrow> real"

text \<open>
  \<^verbatim>\<open>CommModule.send_hello_to\<close> returns \<^verbatim>\<open>(False, None)\<close> or \<^verbatim>\<open>(True, quality)\<close>; the two
  shapes are \<open>None\<close> and \<open>Some quality\<close> here.
\<close>

definition send_hello_to :: "env \<Rightarrow> node \<Rightarrow> node \<Rightarrow> real option" where
  "send_hello_to e me other =
     (case unicast e me other of
        None \<Rightarrow> None
      | Some _ \<Rightarrow>
          (case unicast e other me of
             None \<Rightarrow> None
           | Some quality \<Rightarrow> Some quality))"

definition dist_by_timing_advance :: "env \<Rightarrow> node \<Rightarrow> node \<Rightarrow> real" where
  "dist_by_timing_advance e vehicle bs = distance_to e vehicle bs"

subsection \<open>Context encoders (\<^verbatim>\<open>get_context\<close>)\<close>

definition digit_char :: "nat \<Rightarrow> char" where
  "digit_char d = ''0123456789'' ! (d mod 10)"

text \<open>Python's \<^verbatim>\<open>"%02d" % n\<close> for a non-negative \<open>n\<close>.\<close>

fun str_nat :: "nat \<Rightarrow> string" where
  "str_nat n = (if n < 10 then [digit_char n] else str_nat (n div 10) @ [digit_char (n mod 10)])"

declare str_nat.simps [simp del]

definition fmt_02d :: "nat \<Rightarrow> string" where
  "fmt_02d n = (if n < 10 then ''0'' @ str_nat n else str_nat n)"

text \<open>
  The loop \<^verbatim>\<open>for i in range(dir_group): if dir<=dir_width*(i+1): ...; break\<close>.
  The result is the \<open>i + 1\<close> at which the loop breaks, or \<open>None\<close> when it runs to the
  end without appending anything.
\<close>

fun dir_scan :: "real \<Rightarrow> real \<Rightarrow> nat list \<Rightarrow> nat option" where
  "dir_scan dir dir_width [] = None"
| "dir_scan dir dir_width (i # rest) =
     (if dir \<le> dir_width * real (i + 1) then Some (i + 1)
      else dir_scan dir dir_width rest)"

definition dir_bucket :: "real \<Rightarrow> nat option" where
  "dir_bucket dir =
     (let dir_group = (4::nat); dir_width = 360 / real dir_group
      in dir_scan dir dir_width [0..<dir_group])"

definition speed_str :: "real \<Rightarrow> string" where
  "speed_str s = (if s < 40 then ''slow'' else if s < 50 then ''med '' else ''fast'')"

definition dist_str :: "real \<Rightarrow> string" where
  "dist_str d = (if d < 180 then ''near'' else if d < 360 then ''med '' else ''far '')"

definition CMAB_get_context :: "env \<Rightarrow> bool \<Rightarrow> node \<Rightarrow> node \<Rightarrow> real \<Rightarrow> string" where
  "CMAB_get_context e use_speed_flag beam vehicle cqi =
     ''['' @ node_id beam @ ''; ''
     @ (if use_speed_flag then ''speed='' @ speed_str (speed e vehicle) @ ''; '' else '''')
     @ ''dist='' @ dist_str (dist_by_timing_advance e vehicle beam) @ ''; ''
     @ (case dir_bucket (azimuth e vehicle) of
          Some k \<Rightarrow> ''dir='' @ fmt_02d k @ '']''
        | None \<Rightarrow> '''')"

definition MAB_get_context :: "node \<Rightarrow> node \<Rightarrow> real \<Rightarrow> string" where
  "MAB_get_context beam vehicle cqi = ''['' @ node_id beam @ '']''"

subsection \<open>The selection algorithms: state\<close>

datatype algo_class = VehicleSelectionAlgorithm | RandomSelection | HighestCQI | CMAB | MAB

text \<open>
  The fields of an algorithm object. The fields from \<open>arm_total_reward\<close> on are those
  of \<^verbatim>\<open>CMAB.__init__\<close>; the other classes never read them. \<open>arm_info\<close> is keyed by
  vehicle objects.
\<close>

record algo =
  cls :: algo_class
  all_beams :: "node list"
  stats :: "node \<rightharpoonup> Stats"
  stats2 :: "node \<rightharpoonup> Stats"
  arm_total_reward :: "string \<rightharpoonup> real"
  arm_total_count :: "string \<rightharpoonup> int"
  arm_info :: "node \<rightharpoonup> string \<times> real"
  total_pulled :: int
  time_unit :: real
  exploration_stop_time :: real
  use_speed :: bool

text \<open>
  The constructors: one \<^verbatim>\<open>Stats()\<close> per beam in both dictionaries, empty arm tables, an
  exploration stop time of 0 and no speed feature.
\<close>

definition algo_init :: "algo_class \<Rightarrow> node list \<Rightarrow> real \<Rightarrow> algo" where
  "algo_init c beams tu =
     \<lparr>cls = c, all_beams = beams,
      stats = (\<lambda>b. if b \<in> set beams then Some Stats_init else None),
      stats2 = (\<lambda>b. if b \<in> set beams then Some Stats_init else None),
      arm_total_reward = Map.empty, arm_total_count = Map.empty, arm_info = Map.empty,
      total_pulled = 0, time_unit = tu, exploration_stop_time = 0, use_speed = False\<rparr>"

definition mab_setting :: "real option \<Rightarrow> bool option \<Rightarrow> algo \<Rightarrow> algo" where
  "mab_setting stop_time use_speed_opt a =
     (let a1 = (case stop_time of None \<Rightarrow> a | Some t \<Rightarrow> a\<lparr>exploration_stop_time := t\<rparr>)
      in (case use_speed_opt of None \<Rightarrow> a1 | Some u \<Rightarrow> a1\<lparr>use_speed := u\<rparr>))"

text \<open>\<^verbatim>\<open>self.get_context\<close>: class \<^verbatim>\<open>MAB\<close> overrides the method of \<^verbatim>\<open>CMAB\<close>.\<close>

definition get_context :: "env \<Rightarrow> algo \<Rightarrow> node \<Rightarrow> node \<Rightarrow> real \<Rightarrow> string" where
  "get_context e a beam vehicle cqi =
     (case cls a of
        MAB \<Rightarrow> MAB_get_context beam vehicle cqi
      | _ \<Rightarrow> CMAB_get_context e (use_speed a) beam vehicle cqi)"

subsection \<open>The arm table\<close>

text \<open>
  \<^verbatim>\<open>get_past_reward\<close>. The test \<^verbatim>\<open>context in self.arm_total_reward and
  self.arm_total_count[context]!=0\<close> reads the second dictionary only when the key is in
  the first, and raises \<^verbatim>\<open>KeyError\<close> when it is missing there.
\<close>

definition get_past_reward :: "algo \<Rightarrow> string \<Rightarrow> py_error + real option" where
  "get_past_reward a context =
     (case arm_total_reward a context of
        None \<Rightarrow> Inr None
      | Some reward \<Rightarrow>
          (case arm_total_count a context of
             None \<Rightarrow> Inl KeyError
           | Some n \<Rightarrow>
               if n \<noteq> 0 then Inr (Some (reward / real_of_int n * time_unit a))
               else Inr None))"

text \<open>
  The two statements of \<^verbatim>\<open>report_conn_confirmed\<close> under
  \<^verbatim>\<open>if context not in self.arm_total_reward\<close>.
\<close>

definition arm_init :: "string \<Rightarrow> algo \<Rightarrow> algo" where
  "arm_init context a =
     (if arm_total_reward a context = None
      then a\<lparr>arm_total_reward := (arm_total_reward a)(context \<mapsto> 0),
              arm_total_count := (arm_total_count a)(context \<mapsto> 0)\<rparr>
      else a)"

text \<open>
  The two augmented assignments that end \<^verbatim>\<open>report_conn_lost\<close>; each raises
  \<^verbatim>\<open>KeyError\<close> on a missing key.
\<close>

definition arm_record :: "string \<Rightarrow> real \<Rightarrow> algo \<Rightarrow> py_error + algo" where
  "arm_record context reward a =
     (case arm_total_reward a context of
        None \<Rightarrow> Inl KeyError
      | Some r \<Rightarrow>
          (case arm_total_count a context of
             None \<Rightarrow> Inl KeyError
           | Some n \<Rightarrow>
               Inr (a\<lparr>arm_total_reward := (arm_total_reward a)(context \<mapsto> r + reward),
                       arm_total_count := (arm_total_count a)(context \<mapsto> n + 1)\<rparr>)))"

datatype arm_op = ArmInit string | ArmRecord string real

fun arm_ops :: "arm_op list \<Rightarrow> algo \<Rightarrow> py_error + algo" where
  "arm_ops [] a = Inr a"
| "arm_ops (ArmInit k # ops) a = arm_ops ops (arm_init k a)"
| "arm_ops (ArmRecord k r # ops) a =
     (case arm_record k r a of Inl err \<Rightarrow> Inl err | Inr a' \<Rightarrow> arm_ops ops a')"

text \<open>The rewards recorded for a key by a sequence of operations, in order.\<close>

fun recorded :: "string \<Rightarrow> arm_op list \<Rightarrow> real list" where
  "recorded k [] = []"
| "recorded k (ArmInit k' # ops) = recorded k ops"
| "recorded k (ArmRecord k' r # ops) = (if k' = k then r # recorded k ops else recorded k ops)"

subsection \<open>Connection bookkeeping (\<^verbatim>\<open>report_conn_confirmed\<close>, \<^verbatim>\<open>report_conn_lost\<close>)\<close>

definition VSA_report_conn_confirmed ::
    "real \<Rightarrow> node \<Rightarrow> node \<Rightarrow> real \<Rightarrow> algo \<Rightarrow> py_error + algo" where
  "VSA_report_conn_confirmed sim_time beam vehicle cqi a =
     (case stats a beam of
        None \<Rightarrow> Inl KeyError
      | Some s \<Rightarrow>
          (case stats2 a beam of
             None \<Rightarrow> Inl KeyError
           | Some s2 \<Rightarrow>
               Inr (a\<lparr>stats := (stats a)(beam \<mapsto> conn_begin sim_time s),
                       stats2 := (stats2 a)(beam \<mapsto> conn_begin sim_time s2)\<rparr>)))"

definition VSA_report_conn_lost :: "real \<Rightarrow> node \<Rightarrow> node \<Rightarrow> algo \<Rightarrow> py_error + algo" where
  "VSA_report_conn_lost sim_time beam vehicle a =
     (case stats a beam of
        None \<Rightarrow> Inl KeyError
      | Some s \<Rightarrow>
          (case conn_end sim_time s of
             Inl err \<Rightarrow> Inl err
           | Inr s' \<Rightarrow>
               (case stats2 a beam of
                  None \<Rightarrow> Inl KeyError
                | Some s2 \<Rightarrow>
                    (case conn_end sim_time s2 of
                       Inl err \<Rightarrow> Inl err
                     | Inr s2' \<Rightarrow>
                         Inr (a\<lparr>stats := (stats a)(beam \<mapsto> s'),
                                 stats2 := (stats2 a)(beam \<mapsto> s2')\<rparr>)))))"

text \<open>
  The bodies of \<^verbatim>\<open>CMAB.report_conn_confirmed\<close> and \<^verbatim>\<open>CMAB.report_conn_lost\<close>, with the
  method \<^verbatim>\<open>self.get_context\<close> as the parameter \<open>enc\<close>.
\<close>

definition bandit_report_conn_confirmed ::
    "(node \<Rightarrow> node \<Rightarrow> real \<Rightarrow> string) \<Rightarrow> real \<Rightarrow> node \<Rightarrow> node \<Rightarrow> real \<Rightarrow> algo
      \<Rightarrow> py_error + algo" where
  "bandit_report_conn_confirmed enc sim_time beam vehicle cqi a =
     (case VSA_report_conn_confirmed sim_time beam vehicle cqi a of
        Inl err \<Rightarrow> Inl err
      | Inr a1 \<Rightarrow>
          (let context = enc beam vehicle cqi;
               a2 = arm_init context a1
           in Inr (a2\<lparr>arm_info := (arm_info a2)(vehicle \<mapsto> (context, sim_time))\<rparr>)))"

definition bandit_report_conn_lost :: "real \<Rightarrow> node \<Rightarrow> node \<Rightarrow> algo \<Rightarrow> py_error + algo" where
  "bandit_report_conn_lost sim_time beam vehicle a =
     (case VSA_report_conn_lost sim_time beam vehicle a of
        Inl err \<Rightarrow> Inl err
      | Inr a1 \<Rightarrow>
          (case arm_info a1 vehicle of
             None \<Rightarrow> Inl KeyError
           | Some (context, start_time) \<Rightarrow> arm_record context (sim_time - start_time) a1))"

text \<open>Method resolution on the class of the object.\<close>

definition report_conn_confirmed ::
    "env \<Rightarrow> real \<Rightarrow> node \<Rightarrow> node \<Rightarrow> real \<Rightarrow> algo \<Rightarrow> py_error + algo" where
  "report_conn_confirmed e sim_time beam vehicle cqi a =
     (case cls a of
        CMAB \<Rightarrow> bandit_report_conn_confirmed (get_context e a) sim_time beam vehicle cqi a
      | MAB \<Rightarrow> bandit_report_conn_confirmed (get_context e a) sim_time beam vehicle cqi a
      | _ \<Rightarrow> VSA_report_conn_confirmed sim_time beam vehicle cqi a)"

definition report_conn_lost :: "real \<Rightarrow> node \<Rightarrow> node \<Rightarrow> algo \<Rightarrow> py_error + algo" where
  "report_conn_lost sim_time beam vehicle a =
     (case cls a of
        CMAB \<Rightarrow> bandit_report_conn_lost sim_time beam vehicle a
      | MAB \<Rightarrow> bandit_report_conn_lost sim_time beam vehicle a
      | _ \<Rightarrow> VSA_report_conn_lost sim_time beam vehicle a)"

subsection \<open>The selection algorithms: \<^verbatim>\<open>do_pairing\<close>\<close>

type_synonym pairing = "node \<times> node \<times> real"

text \<open>
  The random source is a sequence of draws; \<^verbatim>\<open>random.choice\<close> on a non-empty list takes
  the element at the next draw modulo the length, so that every element can be chosen.
  Both call sites test the list for emptiness first.
\<close>

type_synonym rng = "nat \<Rightarrow> nat"

definition random_choice :: "rng \<Rightarrow> 'a list \<Rightarrow> 'a \<times> rng" where
  "random_choice g xs = (xs ! (g 0 mod length xs), (\<lambda>n. g (Suc n)))"

text \<open>
  The inner loop of \<^verbatim>\<open>RandomSelection.do_pairing\<close> over the broadcast result: the
  list \<^verbatim>\<open>available_vehicle_list\<close>. \<open>assoc\<close> is the \<^verbatim>\<open>associated_bs\<close> attribute of the
  vehicles.
\<close>

fun hello_scan :: "env \<Rightarrow> (node \<rightharpoonup> node) \<Rightarrow> node \<Rightarrow> (node \<times> real) list \<Rightarrow> (node \<times> real) list" where
  "hello_scan e assoc beam [] = []"
| "hello_scan e assoc beam ((vehicle, signal) # rest) =
     (if node_kind vehicle \<noteq> Vehicle then hello_scan e assoc beam rest
      else if assoc vehicle \<noteq> None then hello_scan e assoc beam rest
      else (case send_hello_to e beam vehicle of
              None \<Rightarrow> hello_scan e assoc beam rest
            | Some cqi \<Rightarrow> (vehicle, cqi) # hello_scan e assoc beam rest))"

text \<open>The \<^verbatim>\<open>while True\<close> loop; each round without a vehicle removes the beam drawn.\<close>

function RandomSelection_loop ::
    "env \<Rightarrow> (node \<rightharpoonup> node) \<Rightarrow> node list \<Rightarrow> rng \<Rightarrow> pairing option \<times> rng" where
  "RandomSelection_loop e assoc available_beams g =
     (if length available_beams = 0 then (None, g)
      else
        (case random_choice g available_beams of
           (beam, g1) \<Rightarrow>
             (case hello_scan e assoc beam (broadcast e beam) of
                [] \<Rightarrow> RandomSelection_loop e assoc (remove1 beam available_beams) g1
              | c # cs \<Rightarrow>
                  (case random_choice g1 (c # cs) of
                     ((vehicle, cqi), g2) \<Rightarrow> (Some (beam, vehicle, cqi), g2)))))"
  by pat_completeness auto
termination
  apply (relation "measure (\<lambda>(e, assoc, available_beams, g). length available_beams)")
   apply simp
  apply (auto simp: random_choice_def length_remove1)
  done

declare RandomSelection_loop.simps [simp del]

definition RandomSelection_do_pairing ::
    "env \<Rightarrow> (node \<rightharpoonup> node) \<Rightarrow> (node \<rightharpoonup> node) \<Rightarrow> node list \<Rightarrow> rng \<Rightarrow> pairing option \<times> rng" where
  "RandomSelection_do_pairing e serving assoc beams g =
     RandomSelection_loop e assoc (filter (\<lambda>beam. serving beam = None) beams) g"

text \<open>
  \<^verbatim>\<open>HighestCQI.do_pairing\<close>: the inner loop over one broadcast result and the outer loop
  over the available beams, on the pair \<^verbatim>\<open>(max_cqi, selected_pair)\<close>.
\<close>

fun HighestCQI_inner ::
    "env \<Rightarrow> (node \<rightharpoonup> node) \<Rightarrow> node \<Rightarrow> (node \<times> real) list
      \<Rightarrow> real option \<times> pairing option \<Rightarrow> real option \<times> pairing option" where
  "HighestCQI_inner e assoc beam [] acc = acc"
| "HighestCQI_inner e assoc beam ((vehicle, signal) # rest) (max_cqi, selected_pair) =
     (if node_kind vehicle \<noteq> Vehicle
      then HighestCQI_inner e assoc beam rest (max_cqi, selected_pair)
      else if assoc vehicle \<noteq> None
      then HighestCQI_inner e assoc beam rest (max_cqi, selected_pair)
      else (case unicast e vehicle beam of
              None \<Rightarrow> HighestCQI_inner e assoc beam rest (max_cqi, selected_pair)
            | Some cqi \<Rightarrow>
                if max_cqi = None \<or> cqi > the max_cqi
                then HighestCQI_inner e assoc beam rest (Some cqi, Some (beam, vehicle, cqi))
                else HighestCQI_inner e assoc beam rest (max_cqi, selected_pair)))"

fun HighestCQI_outer ::
    "env \<Rightarrow> (node \<rightharpoonup> node) \<Rightarrow> node list
      \<Rightarrow> real option \<times> pairing option \<Rightarrow> real option \<times> pairing option" where
  "HighestCQI_outer e assoc [] acc = acc"
| "HighestCQI_outer e assoc (beam # rest) acc =
     HighestCQI_outer e assoc rest (HighestCQI_inner e assoc beam (broadcast e beam) acc)"

definition HighestCQI_do_pairing ::
    "env \<Rightarrow> (node \<rightharpoonup> node) \<Rightarrow> (node \<rightharpoonup> node) \<Rightarrow> node list \<Rightarrow> pairing option" where
  "HighestCQI_do_pairing e serving assoc beams =
     (let available_beams = filter (\<lambda>beam. serving beam = None) beams
      in if length available_beams = 0 then None
         else snd (HighestCQI_outer e assoc available_beams (None, None)))"

text \<open>
  The exploitation branch of \<^verbatim>\<open>CMAB.do_pairing\<close>, on the pair
  \<^verbatim>\<open>(highest_reward, selected_pair)\<close>; an exception of \<^verbatim>\<open>get_past_reward\<close> ends the scan.
\<close>

fun exploit_inner ::
    "(node \<Rightarrow> node \<Rightarrow> real \<Rightarrow> string) \<Rightarrow> env \<Rightarrow> algo \<Rightarrow> (node \<rightharpoonup> node) \<Rightarrow> node
      \<Rightarrow> (node \<times> real) list \<Rightarrow> real \<times> pairing option \<Rightarrow> py_error + real \<times> pairing option" where
  "exploit_inner enc e a assoc beam [] acc = Inr acc"
| "exploit_inner enc e a assoc beam ((vehicle, signal) # rest) (highest_reward, selected_pair) =
     (if node_kind vehicle \<noteq> Vehicle
      then exploit_inner enc e a assoc beam rest (highest_reward, selected_pair)
      else if assoc vehicle \<noteq> None
      then exploit_inner enc e a assoc beam rest (highest_reward, selected_pair)
      else (case unicast e vehicle beam of
              None \<Rightarrow> exploit_inner enc e a assoc beam rest (highest_reward, selected_pair)
            | Some cqi \<Rightarrow>
                (case get_past_reward a (enc beam vehicle cqi) of
                   Inl err \<Rightarrow> Inl err
                 | Inr None \<Rightarrow>
                     exploit_inner enc e a assoc beam rest (highest_reward, selected_pair)
                 | Inr (Some predicted_reward) \<Rightarrow>
                     if predicted_reward > highest_reward
                     then exploit_inner enc e a assoc beam rest
                            (predicted_reward, Some (beam, vehicle, cqi))
                     else exploit_inner enc e a assoc beam rest
                            (highest_reward, selected_pair))))"

fun exploit_outer ::
    "(node \<Rightarrow> node \<Rightarrow> real \<Rightarrow> string) \<Rightarrow> env \<Rightarrow> algo \<Rightarrow> (node \<rightharpoonup> node) \<Rightarrow> node list
      \<Rightarrow> real \<times> pairing option \<Rightarrow> py_error + real \<times> pairing option" where
  "exploit_outer enc e a assoc [] acc = Inr acc"
| "exploit_outer enc e a assoc (beam # rest) acc =
     (case exploit_inner enc e a assoc beam (broadcast e beam) acc of
        Inl err \<Rightarrow> Inl err
      | Inr acc' \<Rightarrow> exploit_outer enc e a assoc rest acc')"

text \<open>
  The body of \<^verbatim>\<open>CMAB.do_pairing\<close>, with \<^verbatim>\<open>self.get_context\<close> as the parameter \<open>enc\<close>.
  The result is the pair returned, the random source and the object after the call.
\<close>

definition bandit_do_pairing ::
    "(node \<Rightarrow> node \<Rightarrow> real \<Rightarrow> string) \<Rightarrow> env \<Rightarrow> real \<Rightarrow> (node \<rightharpoonup> node) \<Rightarrow> (node \<rightharpoonup> node)
      \<Rightarrow> rng \<Rightarrow> algo \<Rightarrow> py_error + pairing option \<times> rng \<times> algo" where
  "bandit_do_pairing enc e sim_time serving assoc g a =
     (if sim_time < exploration_stop_time a
      then (case RandomSelection_do_pairing e serving assoc (all_beams a) g of
              (pair, g') \<Rightarrow> Inr (pair, g', a\<lparr>total_pulled := total_pulled a + 1\<rparr>))
      else
        (let available_beams = filter (\<lambda>beam. serving beam = None) (all_beams a)
         in if length available_beams = 0 then Inr (None, g, a)
            else (case exploit_outer enc e a assoc available_beams (- 1, None) of
                    Inl err \<Rightarrow> Inl err
                  | Inr (highest_reward, selected_pair) \<Rightarrow>
                      Inr (selected_pair, g, a\<lparr>total_pulled := total_pulled a + 1\<rparr>))))"

text \<open>Method resolution; the base class returns \<^verbatim>\<open>None\<close>.\<close>

definition do_pairing ::
    "env \<Rightarrow> real \<Rightarrow> (node \<rightharpoonup> node) \<Rightarrow> (node \<rightharpoonup> node) \<Rightarrow> rng \<Rightarrow> algo
      \<Rightarrow> py_error + pairing option \<times> rng \<times> algo" where
  "do_pairing e sim_time serving assoc g a =
     (case cls a of
        VehicleSelectionAlgorithm \<Rightarrow> Inr (None, g, a)
      | RandomSelection \<Rightarrow>
          (case RandomSelection_do_pairing e serving assoc (all_beams a) g of
             (pair, g') \<Rightarrow> Inr (pair, g', a))
      | HighestCQI \<Rightarrow> Inr (HighestCQI_do_pairing e serving assoc (all_beams a), g, a)
      | CMAB \<Rightarrow> bandit_do_pairing (get_context e a) e sim_time serving assoc g a
      | MAB \<Rightarrow> bandit_do_pairing (get_context e a) e sim_time serving assoc g a)"

subsection \<open>The allocation loop (\<^verbatim>\<open>MyScenario.do_mobility\<close>)\<close>

text \<open>
  \<open>serving_node\<close> is the attribute of the beam objects, \<open>associated_bs\<close> that of the
  vehicle objects; \<open>None\<close> is the attribute value \<^verbatim>\<open>None\<close>.
\<close>

record scenario =
  bs_beams :: "node list"
  max_active_beam :: int
  serving_node :: "node \<rightharpoonup> node"
  associated_bs :: "node \<rightharpoonup> node"
  my_algorithm :: algo
  random_source :: rng

definition lost_bs :: "real \<Rightarrow> node \<Rightarrow> scenario \<Rightarrow> scenario" where
  "lost_bs sim_time vehicle st = st\<lparr>associated_bs := (associated_bs st)(vehicle := None)\<rparr>"

definition connect_bs :: "node \<Rightarrow> real \<Rightarrow> node \<Rightarrow> scenario \<Rightarrow> scenario" where
  "connect_bs bs sim_time vehicle st = st\<lparr>associated_bs := (associated_bs st)(vehicle \<mapsto> bs)\<rparr>"

text \<open>\<^verbatim>\<open>lost_vehicle\<close> calls a method on \<^verbatim>\<open>self.serving_node\<close>, which fails on \<^verbatim>\<open>None\<close>.\<close>

definition lost_vehicle :: "real \<Rightarrow> node \<Rightarrow> scenario \<Rightarrow> py_error + scenario" where
  "lost_vehicle sim_time beam st =
     (case serving_node st beam of
        None \<Rightarrow> Inl AttributeError
      | Some vehicle \<Rightarrow>
          (let st1 = lost_bs sim_time vehicle st
           in Inr (st1\<lparr>serving_node := (serving_node st1)(beam := None)\<rparr>)))"

definition connect_vehicle :: "node \<Rightarrow> real \<Rightarrow> real \<Rightarrow> node \<Rightarrow> scenario \<Rightarrow> scenario" where
  "connect_vehicle vehicle sim_time cqi beam st =
     connect_bs beam sim_time vehicle (st\<lparr>serving_node := (serving_node st)(beam \<mapsto> vehicle)\<rparr>)"

text \<open>The first loop of \<^verbatim>\<open>do_mobility\<close>: release the beams whose vehicle no longer answers.\<close>

fun release_loop :: "env \<Rightarrow> real \<Rightarrow> node list \<Rightarrow> scenario \<Rightarrow> py_error + scenario" where
  "release_loop e sim_time [] st = Inr st"
| "release_loop e sim_time (beam # rest) st =
     (case serving_node st beam of
        None \<Rightarrow> release_loop e sim_time rest st
      | Some vehicle \<Rightarrow>
          (case send_hello_to e beam vehicle of
             Some _ \<Rightarrow> release_loop e sim_time rest st
           | None \<Rightarrow>
               (case lost_vehicle sim_time beam st of
                  Inl err \<Rightarrow> Inl err
                | Inr st1 \<Rightarrow>
                    (case report_conn_lost sim_time beam vehicle (my_algorithm st1) of
                       Inl err \<Rightarrow> Inl err
                     | Inr a' \<Rightarrow> release_loop e sim_time rest (st1\<lparr>my_algorithm := a'\<rparr>)))))"

definition count_active :: "scenario \<Rightarrow> int" where
  "count_active st = int (length (filter (\<lambda>beam. serving_node st beam \<noteq> None) (bs_beams st)))"

text \<open>
  The loop \<^verbatim>\<open>while num_active_beam<self.max_active_beam\<close>. The bound is never assigned
  during a run; it is the parameter \<open>K\<close>.
\<close>

function fill_loop :: "env \<Rightarrow> real \<Rightarrow> int \<Rightarrow> int \<Rightarrow> scenario \<Rightarrow> py_error + scenario" where
  "fill_loop e sim_time K num_active_beam st =
     (if num_active_beam < K
      then (case do_pairing e sim_time (serving_node st) (associated_bs st)
                   (random_source st) (my_algorithm st) of
              Inl err \<Rightarrow> Inl err
            | Inr (None, g', a') \<Rightarrow> Inr (st\<lparr>my_algorithm := a', random_source := g'\<rparr>)
            | Inr (Some (beam, vehicle, cqi), g', a') \<Rightarrow>
                (let st1 = connect_vehicle vehicle sim_time cqi beam
                             (st\<lparr>my_algorithm := a', random_source := g'\<rparr>)
                 in (case report_conn_confirmed e sim_time beam vehicle cqi (my_algorithm st1) of
                       Inl err \<Rightarrow> Inl err
                     | Inr a'' \<Rightarrow>
                         fill_loop e sim_time K (num_active_beam + 1)
                           (st1\<lparr>my_algorithm := a''\<rparr>))))
      else Inr st)"
  by pat_completeness auto
termination
  by (relation "measure (\<lambda>(e, sim_time, K, num_active_beam, st). nat (K - num_active_beam))") auto

declare fill_loop.simps [simp del]

text \<open>
  \<^verbatim>\<open>do_mobility\<close> up to the end of the allocation loop; what follows in the source draws
  the map and prints the progress report, and assigns neither reference.
\<close>

definition do_mobility :: "env \<Rightarrow> real \<Rightarrow> scenario \<Rightarrow> py_error + scenario" where
  "do_mobility e sim_time st =
     (case release_loop e sim_time (bs_beams st) st of
        Inl err \<Rightarrow> Inl err
      | Inr st1 \<Rightarrow> fill_loop e sim_time (max_active_beam st1) (count_active st1) st1)"

text \<open>The state after \<^verbatim>\<open>on_create\<close>: no beam serves and no vehicle is associated.\<close>

definition scenario_init :: "node list \<Rightarrow> int \<Rightarrow> algo \<Rightarrow> rng \<Rightarrow> scenario" where
  "scenario_init beams K a g =
     \<lparr>bs_beams = beams, max_active_beam = K, serving_node = Map.empty,
      associated_bs = Map.empty, my_algorithm = a, random_source = g\<rparr>"

text \<open>A run: the steps delivered by the simulator, each with what it answers then.\<close>

fun run_steps :: "(env \<times> real) list \<Rightarrow> scenario \<Rightarrow> py_error + scenario" where
  "run_steps [] st = Inr st"
| "run_steps ((e, sim_time) # rest) st =
     (case do_mobility e sim_time st of
        Inl err \<Rightarrow> Inl err
      | Inr st' \<Rightarrow> run_steps rest st')"

text \<open>
  The arm table \<open>a\<close> holds, for every key, the sum and the number of the rewards listed
  by \<open>pre\<close>; a key that is in neither dictionary has none.
\<close>

definition arm_table_of :: "algo \<Rightarrow> (string \<Rightarrow> real list) \<Rightarrow> bool" where
  "arm_table_of a pre \<longleftrightarrow>
     (\<forall>k. (arm_total_reward a k = None \<and> arm_total_count a k = None \<and> pre k = [])
        \<or> (arm_total_reward a k = Some (sum_list (pre k))
            \<and> arm_total_count a k = Some (int (length (pre k)))))"

subsection \<open>Sequences of bookkeeping calls\<close>

text \<open>
  The calls the allocation loop makes on the algorithm object: a confirmed connection
  (with what the simulator answers at that moment, which the contextual encoder reads) or
  a lost one.
\<close>

datatype event = Confirmed env real node node real | Lost real node node

fun run_events :: "event list \<Rightarrow> algo \<Rightarrow> py_error + algo" where
  "run_events [] a = Inr a"
| "run_events (Confirmed e sim_time beam vehicle cqi # evs) a =
     (case report_conn_confirmed e sim_time beam vehicle cqi a of
        Inl err \<Rightarrow> Inl err
      | Inr a' \<Rightarrow> run_events evs a')"
| "run_events (Lost sim_time beam vehicle # evs) a =
     (case report_conn_lost sim_time beam vehicle a of
        Inl err \<Rightarrow> Inl err
      | Inr a' \<Rightarrow> run_events evs a')"

text \<open>
  The context key and time of the last \<open>Confirmed\<close> call for a vehicle, if there is one.
\<close>

fun last_confirmed :: "algo \<Rightarrow> node \<Rightarrow> event list \<Rightarrow> (string \<times> real) option" where
  "last_confirmed a v [] = None"
| "last_confirmed a v (Confirmed e sim_time beam vehicle cqi # evs) =
     (case last_confirmed a v evs of
        Some p \<Rightarrow> Some p
      | None \<Rightarrow> if vehicle = v then Some (get_context e a beam vehicle cqi, sim_time) else None)"
| "last_confirmed a v (Lost sim_time beam vehicle # evs) = last_confirmed a v evs"

text \<open>Every pending record of \<open>arm_info\<close> names a key of both arm dictionaries.\<close>

definition pending_ok :: "algo \<Rightarrow> bool" where
  "pending_ok a \<longleftrightarrow>
     (\<forall>v context start_time. arm_info a v = Some (context, start_time) \<longrightarrow>
        arm_total_reward a context \<noteq> None \<and> arm_total_count a context \<noteq> None)"

definition is_bandit :: "algo \<Rightarrow> bool" where
  "is_bandit a \<longleftrightarrow> cls a = CMAB \<or> cls a = MAB"

text \<open>The two arm dictionaries have the same keys.\<close>

definition same_keys :: "algo \<Rightarrow> bool" where
  "same_keys a \<longleftrightarrow> (\<forall>k. arm_total_reward a k = None \<longleftrightarrow> arm_total_count a k = None)"

text \<open>A simulator that reaches nothing, for examples.\<close>

definition env0 :: env where
  "env0 = \<lparr>broadcast = (\<lambda>b. []), unicast = (\<lambda>a b. None), speed = (\<lambda>v. 0),
           distance_to = (\<lambda>v b. 0), azimuth = (\<lambda>v. 0)\<rparr>"

subsection \<open>Candidates of a scan\<close>

text \<open>
  The triples that reach the comparison in the inner loop of \<^verbatim>\<open>HighestCQI.do_pairing\<close>
  and of the exploitation branch of \<^verbatim>\<open>CMAB.do_pairing\<close> (both use the same three
  \<^verbatim>\<open>continue\<close> tests), in the order the loops meet them.
\<close>

fun reply_scan :: "env \<Rightarrow> (node \<rightharpoonup> node) \<Rightarrow> node \<Rightarrow> (node \<times> real) list \<Rightarrow> pairing list" where
  "reply_scan e assoc beam [] = []"
| "reply_scan e assoc beam ((vehicle, signal) # rest) =
     (if node_kind vehicle \<noteq> Vehicle then reply_scan e assoc beam rest
      else if assoc vehicle \<noteq> None then reply_scan e assoc beam rest
      else (case unicast e vehicle beam of
              None \<Rightarrow> reply_scan e assoc beam rest
            | Some cqi \<Rightarrow> (beam, vehicle, cqi) # reply_scan e assoc beam rest))"

definition candidates :: "env \<Rightarrow> (node \<rightharpoonup> node) \<Rightarrow> (node \<rightharpoonup> node) \<Rightarrow> node list \<Rightarrow> pairing list" where
  "candidates e serving assoc beams =
     concat (map (\<lambda>beam. reply_scan e assoc beam (broadcast e beam))
                 (filter (\<lambda>beam. serving beam = None) beams))"

definition cqi_of :: "pairing \<Rightarrow> real" where
  "cqi_of c = snd (snd c)"

text \<open>
  One comparison of a scan that keeps the first best element: with nothing selected yet
  the element is taken if its score passes the test \<open>A\<close>, afterwards only if its score is
  strictly above the selected one's.
\<close>

definition keep_step :: "('a \<Rightarrow> real) \<Rightarrow> (real \<Rightarrow> bool) \<Rightarrow> 'a option \<Rightarrow> 'a \<Rightarrow> 'a option" where
  "keep_step f A sel x =
     (case sel of
        None \<Rightarrow> if A (f x) then Some x else None
      | Some c \<Rightarrow> if f x > f c then Some x else Some c)"

text \<open>
  The predicted reward of a candidate, and the candidates of a list that have one, each
  with its prediction.
\<close>

definition prediction :: "(node \<Rightarrow> node \<Rightarrow> real \<Rightarrow> string) \<Rightarrow> algo \<Rightarrow> pairing \<Rightarrow> real option" where
  "prediction enc a c =
     (case c of (beam, vehicle, cqi) \<Rightarrow>
        (case get_past_reward a (enc beam vehicle cqi) of
           Inr (Some p) \<Rightarrow> Some p
         | _ \<Rightarrow> None))"

definition predicted ::
    "(node \<Rightarrow> node \<Rightarrow> real \<Rightarrow> string) \<Rightarrow> algo \<Rightarrow> pairing list \<Rightarrow> (pairing \<times> real) list" where
  "predicted enc a cs = List.map_filter (\<lambda>c. map_option (Pair c) (prediction enc a c)) cs"

text \<open>Every key of the reward dictionary is a key of the count dictionary.\<close>

definition count_keys_present :: "algo \<Rightarrow> bool" where
  "count_keys_present a \<longleftrightarrow>
     (\<forall>k. arm_total_reward a k \<noteq> None \<longrightarrow> arm_total_count a k \<noteq> None)"

text \<open>
  Rewards are durations and counts are numbers of connections: none is negative, and
  neither is the time unit.
\<close>

definition arm_nonneg :: "algo \<Rightarrow> bool" where
  "arm_nonneg a \<longleftrightarrow>
     (\<forall>k r. arm_total_reward a k = Some r \<longrightarrow> 0 \<le> r)
     \<and> (\<forall>k n. arm_total_count a k = Some n \<longrightarrow> 0 \<le> n)
     \<and> 0 \<le> time_unit a"

text \<open>The variable \<^verbatim>\<open>highest_reward\<close> for a selection: \<open>-1\<close> until something is selected.\<close>

definition highest_of :: "(pairing \<times> real) option \<Rightarrow> real" where
  "highest_of s = (case s of None \<Rightarrow> - 1 | Some (c, p) \<Rightarrow> p)"

text \<open>Three beams with one reachable vehicle each, for examples.\<close>

definition env3 :: env where
  "env3 = \<lparr>broadcast = (\<lambda>b. if b = Node ''B1'' BS then [(Node ''C1'' Vehicle, 0)]
                          else if b = Node ''B2'' BS then [(Node ''C2'' Vehicle, 0)]
                          else if b = Node ''B3'' BS then [(Node ''C3'' Vehicle, 0)]
                          else []),
           unicast = (\<lambda>a b. if a = Node ''C1'' Vehicle then Some 10
                          else if a = Node ''C2'' Vehicle then Some 25
                          else if a = Node ''C3'' Vehicle then Some 25
                          else None),
           speed = (\<lambda>v. 0), distance_to = (\<lambda>v b. 0), azimuth = (\<lambda>v. 0)\<rparr>"

definition algo3 :: algo where
  "algo3 = (algo_init MAB [Node ''B1'' BS, Node ''B2'' BS, Node ''B3'' BS] 1)
     \<lparr>arm_total_reward := [''[B1]'' \<mapsto> 4, ''[B2]'' \<mapsto> 20],
      arm_total_count := [''[B1]'' \<mapsto> 1, ''[B2]'' \<mapsto> 2]\<rparr>"

text \<open>The same object as an instance of another class.\<close>

definition as_class :: "algo_class \<Rightarrow> algo \<Rightarrow> algo" where
  "as_class c a = a\<lparr>cls := c\<rparr>"

text \<open>
  The references agree: a beam's \<open>serving_node\<close> is a vehicle exactly when that
  vehicle's \<open>associated_bs\<close> is the beam.
\<close>

definition one_to_one :: "scenario \<Rightarrow> bool" where
  "one_to_one st \<longleftrightarrow>
     (\<forall>b v. serving_node st b = Some v \<longleftrightarrow> associated_bs st v = Some b)"

text \<open>
  What the bookkeeping of an algorithm object needs to go through without an exception:
  both dictionaries have a tracker for every beam of the object; the trackers of a
  serving beam have a start time and, for the bandit classes, its vehicle has a pending
  record; and the arm dictionaries of a bandit object have the same keys, among them the
  keys of all pending records.
\<close>

definition bookkeeping_ok :: "(node \<rightharpoonup> node) \<Rightarrow> algo \<Rightarrow> bool" where
  "bookkeeping_ok serving a \<longleftrightarrow>
     (\<forall>b\<in>set (all_beams a). stats a b \<noteq> None \<and> stats2 a b \<noteq> None)
     \<and> (\<forall>b v. serving b = Some v \<longrightarrow>
           (\<exists>s s2. stats a b = Some s \<and> conn_start_time s \<noteq> None
                 \<and> stats2 a b = Some s2 \<and> conn_start_time s2 \<noteq> None)
           \<and> (is_bandit a \<longrightarrow> arm_info a v \<noteq> None))
     \<and> (is_bandit a \<longrightarrow> same_keys a \<and> pending_ok a)"

definition scenario_ok :: "scenario \<Rightarrow> bool" where
  "scenario_ok st \<longleftrightarrow> bookkeeping_ok (serving_node st) (my_algorithm st)"

text \<open>
  The time of a bookkeeping call, and an arm table with non-negative entries whose
  pending records all started by the time \<open>now\<close>.
\<close>

fun event_time :: "event \<Rightarrow> real" where
  "event_time (Confirmed e sim_time beam vehicle cqi) = sim_time"
| "event_time (Lost sim_time beam vehicle) = sim_time"

definition nonneg_upto :: "real \<Rightarrow> algo \<Rightarrow> bool" where
  "nonneg_upto now a \<longleftrightarrow>
     arm_nonneg a
     \<and> (\<forall>v context start_time. arm_info a v = Some (context, start_time) \<longrightarrow> start_time \<le> now)"

text \<open>
  The situation of the allocation loop: the beams of the scenario are distinct objects and
  are the beams of the algorithm object, the limit is at most their number, and the loop
  counter \<open>n\<close> is the number of serving beams.
\<close>

definition loop_ok :: "int \<Rightarrow> int \<Rightarrow> scenario \<Rightarrow> bool" where
  "loop_ok K n st \<longleftrightarrow>
     distinct (bs_beams st) \<and> all_beams (my_algorithm st) = bs_beams st
     \<and> n = count_active st \<and> K \<le> int (length (bs_beams st))"

definition program_ok :: "scenario \<Rightarrow> bool" where
  "program_ok st \<longleftrightarrow>
     distinct (bs_beams st) \<and> all_beams (my_algorithm st) = bs_beams st
     \<and> max_active_beam st \<le> int (length (bs_beams st))"

section \<open>Properties\<close>

subsection \<open>Statistics\<close>

text \<open>
  C7 (as the code has it). The claim asks \<^verbatim>\<open>begin\<close> on an open tracker and \<^verbatim>\<open>end\<close> on a
  closed one to fail, and \<^verbatim>\<open>end\<close> to clear the start time. The class has no open/closed
  check and never clears the start time: a
  \<^verbatim>\<open>conn_begin\<close> at time 5 on a tracker opened at time 1 returns normally with the start
  time overwritten, and a \<^verbatim>\<open>conn_end\<close> at time 7 leaves the start time 1 stored, so that a
  second \<^verbatim>\<open>conn_end\<close> (no connection open) succeeds as well.
\<close>

theorem Stats_begin_end_counterexample:
  "conn_begin 5 \<lparr>conn_start_time = Some 1, total_time = 0, total_conn = 0\<rparr>
     = \<lparr>conn_start_time = Some 5, total_time = 0, total_conn = 0\<rparr>
   \<and> conn_end 7 \<lparr>conn_start_time = Some 1, total_time = 0, total_conn = 0\<rparr>
     = Inr \<lparr>conn_start_time = Some 1, total_time = 6, total_conn = 1\<rparr>
   \<and> conn_end 9 \<lparr>conn_start_time = Some 1, total_time = 6, total_conn = 1\<rparr>
     = Inr \<lparr>conn_start_time = Some 1, total_time = 14, total_conn = 2\<rparr>"
  by (simp add: conn_begin_def conn_end_def)

text \<open>
  C7, amended. \<^verbatim>\<open>conn_begin\<close> never fails: it stores the new start time whatever was
  stored before. \<^verbatim>\<open>conn_end\<close> fails (with \<^verbatim>\<open>TypeError\<close>) exactly when no start time has
  ever been stored; otherwise it adds the time minus the stored start to the cumulative
  duration, increments the count and leaves the stored start time as it is.
\<close>

theorem Stats_begin_end:
  "conn_begin t s = s\<lparr>conn_start_time := Some t\<rparr>
   \<and> (conn_start_time s = None \<longrightarrow> conn_end t s = Inl TypeError)
   \<and> (conn_start_time s = Some t0 \<longrightarrow>
        (\<exists>s'. conn_end t s = Inr s'
           \<and> total_time s' = total_time s + (t - t0)
           \<and> total_conn s' = total_conn s + 1
           \<and> conn_start_time s' = Some t0))"
  by (simp add: conn_begin_def conn_end_def)

theorem Stats_begin_end_witness:
  "conn_end 3 Stats_init = Inl TypeError
   \<and> (\<exists>s'. conn_end 7 (conn_begin 2 Stats_init) = Inr s'
         \<and> total_time s' = 5 \<and> total_conn s' = 1 \<and> conn_start_time s' = Some 2)"
  using Stats_begin_end [of 3 Stats_init 0]
        Stats_begin_end [of 7 "conn_begin 2 Stats_init" 2]
  by (simp add: Stats_init_def conn_begin_def)

text \<open>
  C8. \<^verbatim>\<open>reset\<close> zeroes the cumulative duration and the count and keeps the stored start
  time; for a tracker with a stored start time \<open>t0\<close>, a \<^verbatim>\<open>conn_end\<close> at time \<open>t\<close> after the
  reset succeeds and leaves exactly \<open>t - t0\<close> as the cumulative duration (and a count of
  one).
\<close>

theorem Stats_reset_keeps_start:
  "total_time (reset s) = 0
   \<and> total_conn (reset s) = 0
   \<and> conn_start_time (reset s) = conn_start_time s
   \<and> (conn_start_time s = Some t0 \<longrightarrow>
        conn_end t (reset s)
          = Inr \<lparr>conn_start_time = Some t0, total_time = 0 + (t - t0), total_conn = 1\<rparr>)"
  by (simp add: reset_def conn_end_def)

theorem Stats_reset_keeps_start_witness:
  "conn_start_time \<lparr>conn_start_time = Some 4, total_time = 30, total_conn = 3\<rparr> = Some 4
   \<and> conn_end 10 (reset \<lparr>conn_start_time = Some 4, total_time = 30, total_conn = 3\<rparr>)
       = Inr \<lparr>conn_start_time = Some 4, total_time = 6, total_conn = 1\<rparr>"
  using Stats_reset_keeps_start
          [of "\<lparr>conn_start_time = Some 4, total_time = 30, total_conn = 3\<rparr>" 4 10]
  by simp

subsection \<open>The direction bucket\<close>

lemma dir_bucket_cases:
  "dir_bucket d =
     (if d \<le> 90 then Some 1 else if d \<le> 180 then Some 2
      else if d \<le> 270 then Some 3 else if d \<le> 360 then Some 4 else None)"
  by (simp add: dir_bucket_def upt_conv_Cons)

text \<open>
  C6 (as the code has it). The claim puts a heading of exactly 360 degrees outside all
  buckets. The loop tests \<^verbatim>\<open>dir<=dir_width*(i+1)\<close>, and \<open>360 \<le> 90 * 4\<close>:
  the heading 360 is in bucket 4 and the key ends in \<^verbatim>\<open>dir=04]\<close>.
\<close>

theorem dir_bucket_360_counterexample:
  "dir_bucket 360 = Some 4"
  by (simp add: dir_bucket_cases)

text \<open>
  C6, amended. The bucket of a heading \<open>d\<close> is the first \<open>k\<close> among 1, 2, 3, 4 with
  \<open>d \<le> 90 * k\<close>: every heading up to 90 (negative ones too) is in bucket 1, a heading of
  exactly 360 is in bucket 4, and only headings above 360 are in no bucket.
\<close>

theorem dir_bucket_first_boundary:
  "(dir_bucket d = Some k \<longleftrightarrow>
      k \<in> {1, 2, 3, 4} \<and> d \<le> 90 * real k \<and> (\<forall>j \<in> {1, 2, 3, 4}. j < k \<longrightarrow> 90 * real j < d))
   \<and> (dir_bucket d = None \<longleftrightarrow> 360 < d)"
  by (auto simp: dir_bucket_cases)

theorem dir_bucket_first_boundary_witness:
  "dir_bucket 200 = Some 3 \<and> dir_bucket 360 = Some 4 \<and> dir_bucket 361 = None"
  using dir_bucket_first_boundary [of 200 3] dir_bucket_first_boundary [of 360 4]
        dir_bucket_first_boundary [of 361 0]
  by simp

subsection \<open>The arm table\<close>

lemma arm_table_ofD:
  "arm_table_of a pre \<Longrightarrow>
     (arm_total_reward a k = None \<and> arm_total_count a k = None \<and> pre k = [])
        \<or> (arm_total_reward a k = Some (sum_list (pre k))
            \<and> arm_total_count a k = Some (int (length (pre k))))"
  unfolding arm_table_of_def by blast

lemma arm_init_table:
  assumes "arm_table_of a pre"
  shows "arm_table_of (arm_init k a) pre"
  unfolding arm_table_of_def
proof
  fix k'
  show "(arm_total_reward (arm_init k a) k' = None \<and> arm_total_count (arm_init k a) k' = None
           \<and> pre k' = [])
        \<or> (arm_total_reward (arm_init k a) k' = Some (sum_list (pre k'))
            \<and> arm_total_count (arm_init k a) k' = Some (int (length (pre k'))))"
    using arm_table_ofD [OF assms, of k'] arm_table_ofD [OF assms, of k]
    by (auto simp: arm_init_def)
qed

lemma arm_record_table:
  assumes "arm_table_of a pre" and "arm_record k r a = Inr a'"
  shows "arm_table_of a' (\<lambda>k'. if k' = k then pre k' @ [r] else pre k')"
  unfolding arm_table_of_def
proof
  fix k'
  let ?pre' = "\<lambda>k'. if k' = k then pre k' @ [r] else pre k'"
  show "(arm_total_reward a' k' = None \<and> arm_total_count a' k' = None \<and> ?pre' k' = [])
        \<or> (arm_total_reward a' k' = Some (sum_list (?pre' k'))
            \<and> arm_total_count a' k' = Some (int (length (?pre' k'))))"
    using arm_table_ofD [OF assms(1), of k'] arm_table_ofD [OF assms(1), of k] assms(2)
    by (auto simp: arm_record_def split: option.splits)
qed

lemma arm_init_time_unit: "time_unit (arm_init k a) = time_unit a"
  by (simp add: arm_init_def)

lemma arm_record_time_unit: "arm_record k r a = Inr a' \<Longrightarrow> time_unit a' = time_unit a"
  by (auto simp: arm_record_def split: option.splits)

lemma arm_ops_table:
  "arm_table_of a pre \<Longrightarrow> arm_ops ops a = Inr a' \<Longrightarrow>
     arm_table_of a' (\<lambda>k. pre k @ recorded k ops) \<and> time_unit a' = time_unit a"
proof (induction ops arbitrary: a pre)
  case Nil
  then show ?case by simp
next
  case (Cons op ops)
  show ?case
  proof (cases op)
    case (ArmInit k)
    with Cons.prems have "arm_ops ops (arm_init k a) = Inr a'" by simp
    from Cons.IH [OF arm_init_table [OF Cons.prems(1)] this]
    show ?thesis using ArmInit by (simp add: arm_init_time_unit)
  next
    case (ArmRecord k r)
    with Cons.prems obtain a1 where a1: "arm_record k r a = Inr a1" and rest: "arm_ops ops a1 = Inr a'"
      by (auto split: sum.splits)
    have eq: "(\<lambda>k'. (if k' = k then pre k' @ [r] else pre k') @ recorded k' ops)
            = (\<lambda>k'. pre k' @ recorded k' (op # ops))"
      using ArmRecord by auto
    from Cons.IH [OF arm_record_table [OF Cons.prems(1) a1] rest]
    show ?thesis using arm_record_time_unit [OF a1] by (simp add: eq)
  qed
qed

text \<open>
  C5. Start from empty arm tables and apply any sequence of the two arm-table operations of
  the bookkeeping (creating a key with zero reward and zero count; adding a reward to a
  key and incrementing its count). If no operation raises, then for every key
  \<^verbatim>\<open>get_past_reward\<close> returns \<^verbatim>\<open>None\<close> when no reward was recorded for the key (the key is
  absent, or present with count zero), and otherwise the sum of the rewards recorded for
  the key divided by their number, times the time unit; the stored cumulative reward and
  count of a present key are that sum and that number.
\<close>

theorem get_past_reward_running_average:
  assumes "arm_total_reward a0 = Map.empty" and "arm_total_count a0 = Map.empty"
    and "arm_ops ops a0 = Inr a"
  shows "get_past_reward a k =
           Inr (if recorded k ops = [] then None
                else Some (sum_list (recorded k ops) / real (length (recorded k ops)) * time_unit a0))
         \<and> (arm_total_reward a k \<noteq> None \<longrightarrow>
              arm_total_reward a k = Some (sum_list (recorded k ops))
              \<and> arm_total_count a k = Some (int (length (recorded k ops))))"
proof -
  have "arm_table_of a0 (\<lambda>k. [])"
    using assms(1,2) by (simp add: arm_table_of_def)
  from arm_ops_table [OF this assms(3)]
  have t: "arm_table_of a (\<lambda>k. recorded k ops)" and u: "time_unit a = time_unit a0"
    by simp_all
  from t have "(arm_total_reward a k = None \<and> arm_total_count a k = None \<and> recorded k ops = [])
        \<or> (arm_total_reward a k = Some (sum_list (recorded k ops))
            \<and> arm_total_count a k = Some (int (length (recorded k ops))))"
    unfolding arm_table_of_def by blast
  then show ?thesis
    by (auto simp: get_past_reward_def u)
qed

theorem get_past_reward_running_average_witness:
  "(case arm_ops [ArmInit ''[BS-01]'', ArmRecord ''[BS-01]'' 4, ArmInit ''[BS-02]'',
                  ArmRecord ''[BS-01]'' 8] (algo_init MAB [] 2) of
      Inl err \<Rightarrow> False
    | Inr a \<Rightarrow> get_past_reward a ''[BS-01]'' = Inr (Some 12)
             \<and> get_past_reward a ''[BS-02]'' = Inr None
             \<and> get_past_reward a ''[BS-03]'' = Inr None)"
  using get_past_reward_running_average
          [of "algo_init MAB [] 2"
              "[ArmInit ''[BS-01]'', ArmRecord ''[BS-01]'' 4, ArmInit ''[BS-02]'',
                ArmRecord ''[BS-01]'' 8]"]
  by (simp add: algo_init_def arm_init_def arm_record_def get_past_reward_def)

subsection \<open>Connection bookkeeping of the bandit classes\<close>

lemma VSA_confirmed_frame:
  "VSA_report_conn_confirmed t b v q a = Inr a1 \<Longrightarrow>
     cls a1 = cls a \<and> use_speed a1 = use_speed a \<and> arm_info a1 = arm_info a
     \<and> arm_total_reward a1 = arm_total_reward a \<and> arm_total_count a1 = arm_total_count a
     \<and> time_unit a1 = time_unit a \<and> all_beams a1 = all_beams a
     \<and> exploration_stop_time a1 = exploration_stop_time a \<and> total_pulled a1 = total_pulled a"
  by (auto simp: VSA_report_conn_confirmed_def split: option.splits)

lemma VSA_lost_frame:
  "VSA_report_conn_lost t b v a = Inr a1 \<Longrightarrow>
     cls a1 = cls a \<and> use_speed a1 = use_speed a \<and> arm_info a1 = arm_info a
     \<and> arm_total_reward a1 = arm_total_reward a \<and> arm_total_count a1 = arm_total_count a
     \<and> time_unit a1 = time_unit a \<and> all_beams a1 = all_beams a
     \<and> exploration_stop_time a1 = exploration_stop_time a \<and> total_pulled a1 = total_pulled a"
  by (auto simp: VSA_report_conn_lost_def split: option.splits sum.splits)

lemma arm_init_frame:
  "cls (arm_init k a) = cls a \<and> use_speed (arm_init k a) = use_speed a
   \<and> arm_info (arm_init k a) = arm_info a"
  by (simp add: arm_init_def)

lemma arm_init_present:
  "arm_total_reward (arm_init k a) k \<noteq> None
   \<and> (arm_total_count a k \<noteq> None \<or> arm_total_reward a k = None
        \<longrightarrow> arm_total_count (arm_init k a) k \<noteq> None)"
  by (simp add: arm_init_def)

lemma arm_init_mono:
  "arm_total_reward a k' \<noteq> None \<Longrightarrow> arm_total_reward (arm_init k a) k' \<noteq> None"
  "arm_total_count a k' \<noteq> None \<Longrightarrow> arm_total_count (arm_init k a) k' \<noteq> None"
  by (simp_all add: arm_init_def)

lemma arm_record_frame:
  "arm_record k r a = Inr a' \<Longrightarrow>
     cls a' = cls a \<and> use_speed a' = use_speed a \<and> arm_info a' = arm_info a
     \<and> (\<forall>k'. arm_total_reward a k' \<noteq> None \<longrightarrow> arm_total_reward a' k' \<noteq> None)
     \<and> (\<forall>k'. arm_total_count a k' \<noteq> None \<longrightarrow> arm_total_count a' k' \<noteq> None)"
  by (auto simp: arm_record_def split: option.splits)

lemma arm_init_same_keys: "same_keys a \<Longrightarrow> same_keys (arm_init k a)"
  by (auto simp: same_keys_def arm_init_def)

lemma arm_record_same_keys: "same_keys a \<Longrightarrow> arm_record k r a = Inr a' \<Longrightarrow> same_keys a'"
  by (auto simp: same_keys_def arm_record_def split: option.splits)

lemma bandit_confirmed_step:
  assumes "bandit_report_conn_confirmed enc t b v q a = Inr a'"
  shows "cls a' = cls a" and "use_speed a' = use_speed a"
    and "arm_info a' = (arm_info a)(v \<mapsto> (enc b v q, t))"
    and "same_keys a \<Longrightarrow> same_keys a'"
    and "same_keys a \<Longrightarrow> pending_ok a \<Longrightarrow> pending_ok a'"
proof -
  from assms obtain a1 where a1: "VSA_report_conn_confirmed t b v q a = Inr a1"
    and a': "a' = (arm_init (enc b v q) a1)\<lparr>arm_info := (arm_info (arm_init (enc b v q) a1))(v \<mapsto> (enc b v q, t))\<rparr>"
    by (auto simp: bandit_report_conn_confirmed_def Let_def split: sum.splits)
  note f = VSA_confirmed_frame [OF a1]
  show "cls a' = cls a" "use_speed a' = use_speed a"
    "arm_info a' = (arm_info a)(v \<mapsto> (enc b v q, t))"
    using f by (simp_all add: a' arm_init_frame)
  have sk1: "same_keys a \<Longrightarrow> same_keys a1" using f by (simp add: same_keys_def)
  show sk: "same_keys a \<Longrightarrow> same_keys a'"
    using arm_init_same_keys [OF sk1, of "enc b v q"] by (simp add: a' same_keys_def)
  assume s: "same_keys a" and p: "pending_ok a"
  have p1: "pending_ok a1" using p f by (simp add: pending_ok_def)
  have pres: "arm_total_reward (arm_init (enc b v q) a1) (enc b v q) \<noteq> None"
    using arm_init_present by blast
  with arm_init_same_keys [OF sk1 [OF s], of "enc b v q"]
  have presc: "arm_total_count (arm_init (enc b v q) a1) (enc b v q) \<noteq> None"
    by (simp add: same_keys_def)
  show "pending_ok a'"
    unfolding pending_ok_def a'
    using p1 pres presc arm_init_mono [of a1 _ "enc b v q"]
    by (auto simp: pending_ok_def arm_init_frame)
qed

lemma bandit_lost_step:
  assumes "bandit_report_conn_lost t b v a = Inr a'"
  shows "cls a' = cls a" and "use_speed a' = use_speed a" and "arm_info a' = arm_info a"
    and "same_keys a \<Longrightarrow> same_keys a'"
    and "pending_ok a \<Longrightarrow> pending_ok a'"
proof -
  from assms obtain a1 ctx t0 where a1: "VSA_report_conn_lost t b v a = Inr a1"
    and r: "arm_record ctx (t - t0) a1 = Inr a'"
    by (auto simp: bandit_report_conn_lost_def split: sum.splits option.splits)
  note f = VSA_lost_frame [OF a1]
  note g = arm_record_frame [OF r]
  show "cls a' = cls a" "use_speed a' = use_speed a" "arm_info a' = arm_info a"
    using f g by simp_all
  have "same_keys a \<Longrightarrow> same_keys a1" using f by (simp add: same_keys_def)
  then show "same_keys a \<Longrightarrow> same_keys a'"
    using arm_record_same_keys [OF _ r] by blast
  assume "pending_ok a"
  then have "pending_ok a1" using f by (simp add: pending_ok_def)
  then show "pending_ok a'"
    using g unfolding pending_ok_def by metis
qed

lemma get_context_cong:
  "cls a' = cls a \<Longrightarrow> use_speed a' = use_speed a \<Longrightarrow> get_context e a' = get_context e a"
  by (intro ext) (simp add: get_context_def split: algo_class.splits)

lemma last_confirmed_cong:
  assumes "cls a' = cls a" and "use_speed a' = use_speed a"
  shows "last_confirmed a' v evs = last_confirmed a v evs"
proof (induction evs)
  case Nil
  show ?case by simp
next
  case (Cons ev evs)
  then show ?case
    by (cases ev) (simp_all add: get_context_cong [OF assms] split: option.splits)
qed

lemma run_events_bandit:
  assumes "is_bandit a" and "same_keys a" and "pending_ok a" and "run_events evs a = Inr a'"
  shows "is_bandit a' \<and> same_keys a' \<and> pending_ok a'
         \<and> arm_info a' v = (case last_confirmed a v evs of Some p \<Rightarrow> Some p | None \<Rightarrow> arm_info a v)"
  using assms
proof (induction evs arbitrary: a)
  case Nil
  then show ?case by simp
next
  case (Cons ev evs)
  show ?case
  proof (cases ev)
    case (Confirmed e t b w q)
    with Cons.prems obtain a1 where
      a1: "bandit_report_conn_confirmed (get_context e a) t b w q a = Inr a1"
      and rest: "run_events evs a1 = Inr a'"
      by (auto simp: report_conn_confirmed_def is_bandit_def split: sum.splits)
    note s = bandit_confirmed_step [OF a1]
    have b1: "is_bandit a1" using Cons.prems(1) s(1) by (simp add: is_bandit_def)
    from Cons.IH [OF b1 s(4) [OF Cons.prems(2)] s(5) [OF Cons.prems(2,3)] rest]
    show ?thesis
      using Confirmed s(3) last_confirmed_cong [OF s(1,2), of v evs]
      by (auto split: option.splits)
  next
    case (Lost t b w)
    with Cons.prems obtain a1 where
      a1: "bandit_report_conn_lost t b w a = Inr a1"
      and rest: "run_events evs a1 = Inr a'"
      by (auto simp: report_conn_lost_def is_bandit_def split: sum.splits)
    note s = bandit_lost_step [OF a1]
    have b1: "is_bandit a1" using Cons.prems(1) s(1) by (simp add: is_bandit_def)
    from Cons.IH [OF b1 s(4) [OF Cons.prems(2)] s(5) [OF Cons.prems(3)] rest]
    show ?thesis
      using Lost s(3) last_confirmed_cong [OF s(1,2), of v evs]
      by (auto split: option.splits)
  qed
qed

text \<open>
  C10 (as the code has it). The claim has \<^verbatim>\<open>report_conn_lost\<close> fail with a missing-key
  error whenever the vehicle was never confirmed. The method first runs the base-class
  bookkeeping; on a fresh object the tracker of the beam has no start time and the call
  fails there with \<^verbatim>\<open>TypeError\<close>, before \<open>arm_info\<close> is read.
\<close>

theorem report_conn_lost_fresh_counterexample:
  "report_conn_lost 10 (Node ''BS-01'' BS) (Node ''Car 0'' Vehicle)
     (algo_init CMAB [Node ''BS-01'' BS] 1) = Inl TypeError"
  by (simp add: report_conn_lost_def bandit_report_conn_lost_def VSA_report_conn_lost_def
      algo_init_def Stats_init_def conn_end_def)

text \<open>
  C10, amended. After any sequence of bookkeeping calls on a fresh bandit object:
  if the vehicle was never confirmed, \<^verbatim>\<open>report_conn_lost\<close> for it fails, and with
  \<^verbatim>\<open>KeyError\<close> whenever the base-class bookkeeping for the beam succeeds; if it was
  confirmed and the base-class bookkeeping succeeds, the call succeeds and adds to the
  context key stored at the last confirmation of that vehicle the call time minus the
  time stored then, and increments the count of that key (an earlier confirmation of the
  vehicle has been overwritten).
\<close>

theorem report_conn_lost_pending:
  assumes "is_bandit a0" and "arm_info a0 = Map.empty"
    and "arm_total_reward a0 = Map.empty" and "arm_total_count a0 = Map.empty"
    and "run_events evs a0 = Inr a"
  shows "(last_confirmed a0 v evs = None \<longrightarrow>
            (\<exists>err. report_conn_lost t b v a = Inl err
               \<and> (\<forall>a1. VSA_report_conn_lost t b v a = Inr a1 \<longrightarrow> err = KeyError)))
       \<and> (\<forall>context start_time a1.
            last_confirmed a0 v evs = Some (context, start_time)
            \<and> VSA_report_conn_lost t b v a = Inr a1 \<longrightarrow>
            (\<exists>r n. arm_total_reward a context = Some r \<and> arm_total_count a context = Some n
               \<and> report_conn_lost t b v a =
                   Inr (a1\<lparr>arm_total_reward := (arm_total_reward a)(context \<mapsto> r + (t - start_time)),
                           arm_total_count := (arm_total_count a)(context \<mapsto> n + 1)\<rparr>)))"
proof -
  have sk: "same_keys a0" using assms(3,4) by (simp add: same_keys_def)
  have pk: "pending_ok a0" using assms(2) by (simp add: pending_ok_def)
  from run_events_bandit [OF assms(1) sk pk assms(5), of v]
  have b: "is_bandit a" and p: "pending_ok a"
    and i: "arm_info a v = last_confirmed a0 v evs"
    using assms(2) by (auto split: option.splits)
  have rl: "report_conn_lost t b v a = bandit_report_conn_lost t b v a"
    using b by (auto simp: report_conn_lost_def is_bandit_def)
  show ?thesis
  proof (intro conjI impI allI)
    assume n: "last_confirmed a0 v evs = None"
    show "\<exists>err. report_conn_lost t b v a = Inl err
               \<and> (\<forall>a1. VSA_report_conn_lost t b v a = Inr a1 \<longrightarrow> err = KeyError)"
    proof (cases "VSA_report_conn_lost t b v a")
      case (Inl err)
      then show ?thesis by (simp add: rl bandit_report_conn_lost_def)
    next
      case (Inr a1)
      with VSA_lost_frame [OF Inr] i n show ?thesis
        by (simp add: rl bandit_report_conn_lost_def)
    qed
  next
    fix ctx t0 a1
    assume h: "last_confirmed a0 v evs = Some (ctx, t0)
            \<and> VSA_report_conn_lost t b v a = Inr a1"
    then have ai: "arm_info a v = Some (ctx, t0)" using i by simp
    with p obtain r n where r: "arm_total_reward a ctx = Some r"
      and n: "arm_total_count a ctx = Some n"
      unfolding pending_ok_def by blast
    note f = VSA_lost_frame [of t b v a a1]
    show "\<exists>r n. arm_total_reward a ctx = Some r \<and> arm_total_count a ctx = Some n
               \<and> report_conn_lost t b v a =
                   Inr (a1\<lparr>arm_total_reward := (arm_total_reward a)(ctx \<mapsto> r + (t - t0)),
                           arm_total_count := (arm_total_count a)(ctx \<mapsto> n + 1)\<rparr>)"
      using h ai r n f by (simp add: rl bandit_report_conn_lost_def arm_record_def)
  qed
qed


theorem report_conn_lost_pending_witness:
  "(case run_events [Confirmed env0 2 (Node ''BS-01'' BS) (Node ''Car 0'' Vehicle) 0,
                     Lost 5 (Node ''BS-01'' BS) (Node ''Car 0'' Vehicle),
                     Confirmed env0 6 (Node ''BS-01'' BS) (Node ''Car 0'' Vehicle) 0]
            (algo_init MAB [Node ''BS-01'' BS] 1) of
      Inl err \<Rightarrow> False
    | Inr a \<Rightarrow>
        report_conn_lost 9 (Node ''BS-01'' BS) (Node ''Car 1'' Vehicle) a = Inl KeyError
        \<and> (case report_conn_lost 9 (Node ''BS-01'' BS) (Node ''Car 0'' Vehicle) a of
              Inl err \<Rightarrow> False
            | Inr a2 \<Rightarrow> arm_total_reward a2 ''[BS-01]'' = Some 6
                       \<and> arm_total_count a2 ''[BS-01]'' = Some 2))"
  using report_conn_lost_pending
          [of "algo_init MAB [Node ''BS-01'' BS] 1"
              "[Confirmed env0 2 (Node ''BS-01'' BS) (Node ''Car 0'' Vehicle) 0,
                Lost 5 (Node ''BS-01'' BS) (Node ''Car 0'' Vehicle),
                Confirmed env0 6 (Node ''BS-01'' BS) (Node ''Car 0'' Vehicle) 0]"]
  by (simp add: report_conn_lost_def report_conn_confirmed_def bandit_report_conn_lost_def
      bandit_report_conn_confirmed_def VSA_report_conn_lost_def VSA_report_conn_confirmed_def
      algo_init_def Stats_init_def conn_end_def conn_begin_def arm_init_def arm_record_def
      get_context_def MAB_get_context_def is_bandit_def Let_def)

subsection \<open>Scans that keep the first best candidate\<close>

lemma keep_step_None: "keep_step f A None x = (if A (f x) then Some x else None)"
  by (simp add: keep_step_def)

lemma keep_step_Some: "keep_step f A (Some c) x = (if f x > f c then Some x else Some c)"
  by (simp add: keep_step_def)

lemma cqi_of_triple: "cqi_of (beam, vehicle, cqi) = cqi"
  by (simp add: cqi_of_def)

lemma keep_first_max:
  assumes up: "\<And>p p'. A p \<Longrightarrow> p \<le> p' \<Longrightarrow> A p'"
  shows "(case foldl (keep_step f A) None cs of
            None \<Rightarrow> (\<forall>x\<in>set cs. \<not> A (f x))
          | Some c \<Rightarrow> A (f c) \<and> (\<exists>pre post. cs = pre @ c # post
                         \<and> (\<forall>p\<in>set pre. f p < f c) \<and> (\<forall>p\<in>set post. f p \<le> f c)))"
proof (induction cs rule: rev_induct)
  case Nil
  show ?case by simp
next
  case (snoc x cs)
  show ?case
  proof (cases "foldl (keep_step f A) None cs")
    case None
    with snoc have no: "\<forall>y\<in>set cs. \<not> A (f y)" by simp
    show ?thesis
    proof (cases "A (f x)")
      case True
      have "\<forall>p\<in>set cs. f p < f x"
      proof
        fix p assume "p \<in> set cs"
        with no have "\<not> A (f p)" by blast
        with up [OF True, of "f p"] show "f p < f x" by (cases "f x \<le> f p") auto
      qed
      then have "\<exists>pre post. cs @ [x] = pre @ x # post
                  \<and> (\<forall>p\<in>set pre. f p < f x) \<and> (\<forall>p\<in>set post. f p \<le> f x)"
        by (intro exI [of _ cs] exI [of _ "[]"]) simp
      with None True show ?thesis by (simp add: keep_step_None keep_step_Some)
    next
      case False
      with None no show ?thesis by (simp add: keep_step_None keep_step_Some)
    qed
  next
    case (Some c)
    with snoc obtain pre post where Ac: "A (f c)" and cs: "cs = pre @ c # post"
      and pre: "\<forall>p\<in>set pre. f p < f c" and post: "\<forall>p\<in>set post. f p \<le> f c"
      by auto
    show ?thesis
    proof (cases "f x > f c")
      case True
      have "\<forall>p\<in>set cs. f p < f x"
        using cs pre post True by auto
      then have "\<exists>pre post. cs @ [x] = pre @ x # post
                  \<and> (\<forall>p\<in>set pre. f p < f x) \<and> (\<forall>p\<in>set post. f p \<le> f x)"
        by (intro exI [of _ cs] exI [of _ "[]"]) simp
      moreover have "A (f x)" using up [OF Ac, of "f x"] True by simp
      ultimately show ?thesis using Some True by (simp add: keep_step_None keep_step_Some)
    next
      case False
      have "cs @ [x] = pre @ c # (post @ [x]) \<and> (\<forall>p\<in>set pre. f p < f c)
              \<and> (\<forall>p\<in>set (post @ [x]). f p \<le> f c)"
        using cs pre post False by auto
      then have "\<exists>pre post. cs @ [x] = pre @ c # post
                  \<and> (\<forall>p\<in>set pre. f p < f c) \<and> (\<forall>p\<in>set post. f p \<le> f c)"
        by blast
      with Some False Ac show ?thesis by (simp add: keep_step_None keep_step_Some)
    qed
  qed
qed

lemma HighestCQI_inner_fold:
  "HighestCQI_inner e assoc beam vl (map_option cqi_of sel, sel)
     = (map_option cqi_of (foldl (keep_step cqi_of (\<lambda>p. True)) sel (reply_scan e assoc beam vl)),
        foldl (keep_step cqi_of (\<lambda>p. True)) sel (reply_scan e assoc beam vl))"
proof (induction vl arbitrary: sel)
  case Nil
  show ?case by simp
next
  case (Cons x vl)
  obtain vehicle signal where x: "x = (vehicle, signal)" by (cases x)
  show ?case
  proof (cases "node_kind vehicle \<noteq> Vehicle \<or> assoc vehicle \<noteq> None \<or> unicast e vehicle beam = None")
    case True
    then show ?thesis using Cons.IH [of sel] by (auto simp: x)
  next
    case False
    then obtain cqi where u: "unicast e vehicle beam = Some cqi" by auto
    show ?thesis
    proof (cases "sel = None \<or> cqi > cqi_of (the sel)")
      case True
      then have k: "keep_step cqi_of (\<lambda>p. True) sel (beam, vehicle, cqi) = Some (beam, vehicle, cqi)"
        by (cases sel) (auto simp: keep_step_None keep_step_Some cqi_of_triple)
      from True have "map_option cqi_of sel = None \<or> cqi > the (map_option cqi_of sel)"
        by (cases sel) auto
      then show ?thesis
        using False u k Cons.IH [of "Some (beam, vehicle, cqi)"] by (simp add: x cqi_of_triple)
    next
      case False2: False
      then obtain c where c: "sel = Some c" and le: "\<not> cqi > cqi_of c" by (cases sel) auto
      then have k: "keep_step cqi_of (\<lambda>p. True) sel (beam, vehicle, cqi) = sel"
        by (auto simp: keep_step_Some cqi_of_triple)
      show ?thesis
        using False u k c le Cons.IH [of sel] by (simp add: x)
    qed
  qed
qed

lemma HighestCQI_outer_fold:
  "HighestCQI_outer e assoc beams (map_option cqi_of sel, sel)
     = (map_option cqi_of (foldl (keep_step cqi_of (\<lambda>p. True)) sel
          (concat (map (\<lambda>beam. reply_scan e assoc beam (broadcast e beam)) beams))),
        foldl (keep_step cqi_of (\<lambda>p. True)) sel
          (concat (map (\<lambda>beam. reply_scan e assoc beam (broadcast e beam)) beams)))"
  by (induction beams arbitrary: sel) (simp_all add: HighestCQI_inner_fold)

lemma HighestCQI_do_pairing_fold:
  "HighestCQI_do_pairing e serving assoc beams
     = foldl (keep_step cqi_of (\<lambda>p. True)) None (candidates e serving assoc beams)"
  using HighestCQI_outer_fold [of e assoc "filter (\<lambda>beam. serving beam = None) beams" None]
  by (simp add: HighestCQI_do_pairing_def candidates_def Let_def)

text \<open>
  C2. \<^verbatim>\<open>HighestCQI.do_pairing\<close> returns \<^verbatim>\<open>None\<close> exactly when the scan has no candidate;
  otherwise it returns a candidate of the highest quality, and the first such in the
  order of the scan: every candidate met before it has a strictly lower quality and none
  met after it has a higher one. For the candidates (B1,C1,10), (B2,C2,25), (B3,C3,25) the
  result is (B2,C2,25).
\<close>

theorem HighestCQI_first_maximum:
  "(HighestCQI_do_pairing e serving assoc beams = None
      \<longleftrightarrow> candidates e serving assoc beams = [])
   \<and> (\<forall>c. HighestCQI_do_pairing e serving assoc beams = Some c \<longrightarrow>
         (\<exists>pre post. candidates e serving assoc beams = pre @ c # post
            \<and> (\<forall>p\<in>set pre. cqi_of p < cqi_of c)
            \<and> (\<forall>p\<in>set post. cqi_of p \<le> cqi_of c)))"
proof -
  let ?cs = "candidates e serving assoc beams"
  note k = keep_first_max [where A = "\<lambda>p. True" and f = cqi_of and cs = ?cs]
  show ?thesis
  proof (cases "foldl (keep_step cqi_of (\<lambda>p. True)) None ?cs")
    case None
    with k have "\<forall>x\<in>set ?cs. False" by simp
    then have "?cs = []" by (cases ?cs) auto
    with None show ?thesis by (simp add: HighestCQI_do_pairing_fold)
  next
    case (Some c)
    with k obtain pre post where d: "?cs = pre @ c # post"
      and "\<forall>p\<in>set pre. cqi_of p < cqi_of c" and "\<forall>p\<in>set post. cqi_of p \<le> cqi_of c"
      by auto
    then have "\<exists>pre post. ?cs = pre @ c # post
            \<and> (\<forall>p\<in>set pre. cqi_of p < cqi_of c) \<and> (\<forall>p\<in>set post. cqi_of p \<le> cqi_of c)"
      by blast
    moreover from d have "?cs \<noteq> []" by simp
    ultimately show ?thesis using Some by (simp add: HighestCQI_do_pairing_fold)
  qed
qed

theorem HighestCQI_first_maximum_witness:
  "candidates env3 Map.empty Map.empty [Node ''B1'' BS, Node ''B2'' BS, Node ''B3'' BS]
     = [(Node ''B1'' BS, Node ''C1'' Vehicle, 10), (Node ''B2'' BS, Node ''C2'' Vehicle, 25),
        (Node ''B3'' BS, Node ''C3'' Vehicle, 25)]
   \<and> HighestCQI_do_pairing env3 Map.empty Map.empty [Node ''B1'' BS, Node ''B2'' BS, Node ''B3'' BS]
     = Some (Node ''B2'' BS, Node ''C2'' Vehicle, 25)"
  using HighestCQI_first_maximum
          [of env3 Map.empty Map.empty "[Node ''B1'' BS, Node ''B2'' BS, Node ''B3'' BS]"]
  by (simp add: candidates_def HighestCQI_do_pairing_def env3_def)


lemma get_past_reward_no_error:
  "count_keys_present a \<Longrightarrow> \<exists>r. get_past_reward a k = Inr r"
  by (auto simp: count_keys_present_def get_past_reward_def split: option.splits)

lemma predicted_Nil: "predicted enc a [] = []"
  by (simp add: predicted_def map_filter_simps)

lemma predicted_Cons:
  "predicted enc a (c # cs) =
     (case prediction enc a c of None \<Rightarrow> predicted enc a cs
      | Some p \<Rightarrow> (c, p) # predicted enc a cs)"
  by (simp add: predicted_def map_filter_simps split: option.splits)

lemma predicted_append: "predicted enc a (xs @ ys) = predicted enc a xs @ predicted enc a ys"
  by (induction xs) (simp_all add: predicted_Nil predicted_Cons split: option.splits)

lemma exploit_inner_fold:
  assumes ok: "count_keys_present a"
  shows "exploit_inner enc e a assoc beam vl (highest_of s, map_option fst s)
     = Inr (highest_of (foldl (keep_step snd (\<lambda>p. - 1 < p)) s
                          (predicted enc a (reply_scan e assoc beam vl))),
            map_option fst (foldl (keep_step snd (\<lambda>p. - 1 < p)) s
                          (predicted enc a (reply_scan e assoc beam vl))))"
proof (induction vl arbitrary: s)
  case Nil
  show ?case by (simp add: predicted_Nil)
next
  case (Cons x vl)
  obtain vehicle signal where x: "x = (vehicle, signal)" by (cases x)
  show ?case
  proof (cases "node_kind vehicle \<noteq> Vehicle \<or> assoc vehicle \<noteq> None \<or> unicast e vehicle beam = None")
    case True
    then show ?thesis using Cons.IH [of s] by (auto simp: x)
  next
    case False
    then obtain cqi where u: "unicast e vehicle beam = Some cqi" by auto
    from get_past_reward_no_error [OF ok] obtain r
      where r: "get_past_reward a (enc beam vehicle cqi) = Inr r" by blast
    show ?thesis
    proof (cases r)
      case None
      then have "prediction enc a (beam, vehicle, cqi) = None"
        using r by (simp add: prediction_def)
      then show ?thesis
        using False u r None Cons.IH [of s] by (simp add: x predicted_Cons)
    next
      case (Some p)
      then have pr: "prediction enc a (beam, vehicle, cqi) = Some p"
        using r by (simp add: prediction_def)
      show ?thesis
      proof (cases "p > highest_of s")
        case True
        then have k: "keep_step snd (\<lambda>p. - 1 < p) s ((beam, vehicle, cqi), p)
                        = Some ((beam, vehicle, cqi), p)"
          by (cases s) (auto simp: keep_step_None keep_step_Some highest_of_def)
        have h: "highest_of (Some ((beam, vehicle, cqi), p)) = p"
          by (simp add: highest_of_def)
        show ?thesis
          using False u r Some pr True k Cons.IH [of "Some ((beam, vehicle, cqi), p)"]
          by (simp add: x predicted_Cons h)
      next
        case F: False
        then have k: "keep_step snd (\<lambda>p. - 1 < p) s ((beam, vehicle, cqi), p) = s"
          by (cases s) (auto simp: keep_step_None keep_step_Some highest_of_def)
        show ?thesis
          using False u r Some pr F k Cons.IH [of s]
          by (simp add: x predicted_Cons)
      qed
    qed
  qed
qed

lemma exploit_outer_fold:
  assumes ok: "count_keys_present a"
  shows "exploit_outer enc e a assoc beams (highest_of s, map_option fst s)
     = Inr (highest_of (foldl (keep_step snd (\<lambda>p. - 1 < p)) s
              (predicted enc a
                 (concat (map (\<lambda>beam. reply_scan e assoc beam (broadcast e beam)) beams)))),
            map_option fst (foldl (keep_step snd (\<lambda>p. - 1 < p)) s
              (predicted enc a
                 (concat (map (\<lambda>beam. reply_scan e assoc beam (broadcast e beam)) beams)))))"
  by (induction beams arbitrary: s)
     (simp_all add: exploit_inner_fold [OF ok] predicted_Nil predicted_append)


lemma candidates_no_beam:
  "filter (\<lambda>beam. serving beam = None) beams = [] \<Longrightarrow> candidates e serving assoc beams = []"
  by (simp add: candidates_def)

lemma bandit_exploit_fold:
  assumes "\<not> sim_time < exploration_stop_time a" and ok: "count_keys_present a"
  shows "\<exists>a'. bandit_do_pairing enc e sim_time serving assoc g a
     = Inr (map_option fst (foldl (keep_step snd (\<lambda>p. - 1 < p)) None
              (predicted enc a (candidates e serving assoc (all_beams a)))), g, a')"
proof (cases "filter (\<lambda>beam. serving beam = None) (all_beams a) = []")
  case True
  then show ?thesis
    using assms(1) by (simp add: bandit_do_pairing_def candidates_no_beam predicted_Nil)
next
  case False
  have h: "highest_of None = - 1" by (simp add: highest_of_def)
  show ?thesis
    using assms(1) False
      exploit_outer_fold [OF ok, of enc e assoc "filter (\<lambda>beam. serving beam = None) (all_beams a)" None]
    by (simp add: bandit_do_pairing_def Let_def h candidates_def)
qed

lemma prediction_nonneg:
  assumes "arm_nonneg a" and "prediction enc a c = Some p"
  shows "0 \<le> p"
proof -
  obtain beam vehicle cqi where c: "c = (beam, vehicle, cqi)" by (cases c)
  from assms(2) obtain r n where r: "arm_total_reward a (enc beam vehicle cqi) = Some r"
    and n: "arm_total_count a (enc beam vehicle cqi) = Some n"
    and p: "p = r / real_of_int n * time_unit a"
    by (auto simp: prediction_def c get_past_reward_def split: option.splits if_splits)
  from assms(1) r n have "0 \<le> r" "0 \<le> n" "0 \<le> time_unit a"
    unfolding arm_nonneg_def by blast+
  then show ?thesis by (simp add: p)
qed

lemma predicted_set:
  "(c, p) \<in> set (predicted enc a cs) \<Longrightarrow> prediction enc a c = Some p"
  by (induction cs) (auto simp: predicted_Nil predicted_Cons split: option.splits)

lemma prediction_empty_table:
  "arm_total_reward a = Map.empty \<Longrightarrow> prediction enc a c = None"
  by (cases c) (simp add: prediction_def get_past_reward_def)

lemma predicted_empty_table:
  "arm_total_reward a = Map.empty \<Longrightarrow> predicted enc a cs = []"
  by (induction cs) (simp_all add: predicted_Nil predicted_Cons prediction_empty_table)

text \<open>
  C4. In the exploitation phase (the time is not below the exploration stop time):
  with an empty reward dictionary \<^verbatim>\<open>do_pairing\<close> returns \<^verbatim>\<open>None\<close>, whatever candidates
  the scan meets; and on an object whose reward keys all have a count, with non-negative
  rewards, counts and time unit, it returns \<^verbatim>\<open>None\<close> exactly when no candidate has a
  prediction, and otherwise a candidate that has a prediction, the highest one, and is the
  first such among the candidates with a prediction. (The scan starts from a highest
  reward of \<open>-1\<close>; the predictions of such an object are non-negative.)
\<close>

theorem exploit_highest_prediction:
  assumes "\<not> sim_time < exploration_stop_time a"
  shows "(arm_total_reward a = Map.empty \<longrightarrow>
            (\<exists>a'. bandit_do_pairing enc e sim_time serving assoc g a = Inr (None, g, a')))
       \<and> (count_keys_present a \<and> arm_nonneg a \<longrightarrow>
            (\<exists>sel a'. bandit_do_pairing enc e sim_time serving assoc g a = Inr (sel, g, a')
               \<and> (sel = None \<longleftrightarrow> predicted enc a (candidates e serving assoc (all_beams a)) = [])
               \<and> (\<forall>c. sel = Some c \<longrightarrow>
                     (\<exists>p pre post.
                        predicted enc a (candidates e serving assoc (all_beams a)) = pre @ (c, p) # post
                        \<and> (\<forall>x\<in>set pre. snd x < p) \<and> (\<forall>x\<in>set post. snd x \<le> p)))))"
proof (intro conjI impI)
  assume empty: "arm_total_reward a = Map.empty"
  then have ok: "count_keys_present a" by (simp add: count_keys_present_def)
  from bandit_exploit_fold [OF assms ok, of enc e serving assoc g]
  show "\<exists>a'. bandit_do_pairing enc e sim_time serving assoc g a = Inr (None, g, a')"
    by (simp add: predicted_empty_table [OF empty])
next
  let ?ps = "predicted enc a (candidates e serving assoc (all_beams a))"
  let ?sel = "foldl (keep_step snd (\<lambda>p. - 1 < p)) None ?ps"
  assume "count_keys_present a \<and> arm_nonneg a"
  then have ok: "count_keys_present a" and nn: "arm_nonneg a" by simp_all
  from bandit_exploit_fold [OF assms ok, of enc e serving assoc g]
  obtain a' where run: "bandit_do_pairing enc e sim_time serving assoc g a
      = Inr (map_option fst ?sel, g, a')"
    by blast
  have above: "\<forall>x\<in>set ?ps. - 1 < snd x"
  proof
    fix x assume "x \<in> set ?ps"
    then have "prediction enc a (fst x) = Some (snd x)"
      using predicted_set [of "fst x" "snd x"] by simp
    from prediction_nonneg [OF nn this] show "- 1 < snd x" by simp
  qed
  have k: "(case ?sel of
              None \<Rightarrow> (\<forall>x\<in>set ?ps. \<not> - 1 < snd x)
            | Some c \<Rightarrow> - 1 < snd c \<and> (\<exists>pre post. ?ps = pre @ c # post
                         \<and> (\<forall>p\<in>set pre. snd p < snd c) \<and> (\<forall>p\<in>set post. snd p \<le> snd c)))"
    by (rule keep_first_max) simp
  have char: "(map_option fst ?sel = None \<longleftrightarrow> ?ps = [])
        \<and> (\<forall>c. map_option fst ?sel = Some c \<longrightarrow>
              (\<exists>p pre post. ?ps = pre @ (c, p) # post
                 \<and> (\<forall>x\<in>set pre. snd x < p) \<and> (\<forall>x\<in>set post. snd x \<le> p)))"
  proof (cases ?sel)
    case None
    with k above have "\<forall>x\<in>set ?ps. False" by auto
    then have "?ps = []" by (cases ?ps) auto
    with None show ?thesis by simp
  next
    case (Some cp)
    obtain c p where cp: "cp = (c, p)" by (cases cp)
    from k Some obtain pre post where d: "?ps = pre @ (c, p) # post"
      and "\<forall>x\<in>set pre. snd x < p" and "\<forall>x\<in>set post. snd x \<le> p"
      by (auto simp: cp)
    then have "\<exists>p pre post. ?ps = pre @ (c, p) # post
                 \<and> (\<forall>x\<in>set pre. snd x < p) \<and> (\<forall>x\<in>set post. snd x \<le> p)"
      by blast
    moreover from d have "?ps \<noteq> []" by simp
    ultimately show ?thesis using Some by (simp add: cp)
  qed
  show "\<exists>sel a'. bandit_do_pairing enc e sim_time serving assoc g a = Inr (sel, g, a')
               \<and> (sel = None \<longleftrightarrow> ?ps = [])
               \<and> (\<forall>c. sel = Some c \<longrightarrow>
                     (\<exists>p pre post. ?ps = pre @ (c, p) # post
                        \<and> (\<forall>x\<in>set pre. snd x < p) \<and> (\<forall>x\<in>set post. snd x \<le> p)))"
    by (rule exI [of _ "map_option fst ?sel"], rule exI [of _ a'], intro conjI)
       (rule run, rule conjunct1 [OF char], rule conjunct2 [OF char])
qed

theorem exploit_highest_prediction_witness:
  "\<not> (5::real) < exploration_stop_time algo3
   \<and> count_keys_present algo3 \<and> arm_nonneg algo3
   \<and> predicted MAB_get_context algo3
        (candidates env3 Map.empty Map.empty (all_beams algo3))
      = [((Node ''B1'' BS, Node ''C1'' Vehicle, 10), 4), ((Node ''B2'' BS, Node ''C2'' Vehicle, 25), 10)]
   \<and> bandit_do_pairing MAB_get_context env3 5 Map.empty Map.empty (\<lambda>n. 0) algo3
      = Inr (Some (Node ''B2'' BS, Node ''C2'' Vehicle, 25), (\<lambda>n. 0),
             algo3\<lparr>total_pulled := 1\<rparr>)
   \<and> bandit_do_pairing MAB_get_context env3 5 Map.empty Map.empty (\<lambda>n. 0)
        (algo_init MAB [Node ''B1'' BS, Node ''B2'' BS, Node ''B3'' BS] 1)
      = Inr (None, (\<lambda>n. 0),
             (algo_init MAB [Node ''B1'' BS, Node ''B2'' BS, Node ''B3'' BS] 1)\<lparr>total_pulled := 1\<rparr>)"
  using exploit_highest_prediction [of 5 algo3 MAB_get_context env3 Map.empty Map.empty "\<lambda>n. 0"]
    exploit_highest_prediction
      [of 5 "algo_init MAB [Node ''B1'' BS, Node ''B2'' BS, Node ''B3'' BS] 1"
          MAB_get_context env3 Map.empty Map.empty "\<lambda>n. 0"]
  by (simp add: algo3_def algo_init_def count_keys_present_def arm_nonneg_def
      predicted_def prediction_def map_filter_simps candidates_def env3_def MAB_get_context_def
      get_past_reward_def bandit_do_pairing_def Let_def)

subsection \<open>The two phases of the bandit classes\<close>

text \<open>
  Before the exploration stop time the call is the call of \<^verbatim>\<open>RandomSelection\<close>, and the
  counter \<open>total_pulled\<close> goes up by one.
\<close>

lemma bandit_explore:
  assumes "sim_time < exploration_stop_time a"
  shows "bandit_do_pairing enc e sim_time serving assoc g a =
           Inr (fst (RandomSelection_do_pairing e serving assoc (all_beams a) g),
                snd (RandomSelection_do_pairing e serving assoc (all_beams a) g),
                a\<lparr>total_pulled := total_pulled a + 1\<rparr>)"
  using assms by (simp add: bandit_do_pairing_def split: prod.splits)

text \<open>
  From the stop time on the random source is not used, and the counter goes up by one
  unless no beam is available: the branch returns before the increment then.
\<close>

lemma bandit_exploit_counter:
  assumes "\<not> sim_time < exploration_stop_time a"
    and "bandit_do_pairing enc e sim_time serving assoc g a = Inr (sel, g', a')"
  shows "g' = g \<and> a' = (if filter (\<lambda>beam. serving beam = None) (all_beams a) = [] then a
               else a\<lparr>total_pulled := total_pulled a + 1\<rparr>)"
  using assms by (auto simp: bandit_do_pairing_def Let_def split: sum.splits if_splits)

text \<open>
  The early return at work: with the only beam serving, a call at time 5 after the
  exploration stop time 0 returns \<^verbatim>\<open>None\<close> and leaves the counter at 0, while the same
  call before an exploration stop time of 10 returns \<^verbatim>\<open>None\<close> and sets the counter to 1.
  The allocation loop makes no such call (see the last subsection).
\<close>

lemma bandit_no_idle_beam_counter:
  "do_pairing env0 5 [Node ''BS-01'' BS \<mapsto> Node ''Car 0'' Vehicle]
       [Node ''Car 0'' Vehicle \<mapsto> Node ''BS-01'' BS] (\<lambda>n. 0)
       (algo_init CMAB [Node ''BS-01'' BS] 1)
     = Inr (None, (\<lambda>n. 0), (algo_init CMAB [Node ''BS-01'' BS] 1)\<lparr>total_pulled := 0\<rparr>)
   \<and> do_pairing env0 5 [Node ''BS-01'' BS \<mapsto> Node ''Car 0'' Vehicle]
       [Node ''Car 0'' Vehicle \<mapsto> Node ''BS-01'' BS] (\<lambda>n. 0)
       (mab_setting (Some 10) None (algo_init CMAB [Node ''BS-01'' BS] 1))
     = Inr (None, (\<lambda>n. 0),
            (mab_setting (Some 10) None (algo_init CMAB [Node ''BS-01'' BS] 1))\<lparr>total_pulled := 1\<rparr>)"
  by (simp add: do_pairing_def bandit_do_pairing_def algo_init_def mab_setting_def
      RandomSelection_do_pairing_def RandomSelection_loop.simps)

subsection \<open>Class \<^verbatim>\<open>MAB\<close>\<close>

lemma get_past_reward_as_class: "get_past_reward (as_class c a) k = get_past_reward a k"
  by (simp add: get_past_reward_def as_class_def split: option.splits)

lemma exploit_inner_as_class:
  "exploit_inner enc e (as_class c a) assoc beam vl acc = exploit_inner enc e a assoc beam vl acc"
  by (induction enc e a assoc beam vl acc rule: exploit_inner.induct)
     (simp_all add: get_past_reward_as_class split: option.splits sum.splits)

lemma exploit_outer_as_class:
  "exploit_outer enc e (as_class c a) assoc beams acc = exploit_outer enc e a assoc beams acc"
  by (induction beams arbitrary: acc) (simp_all add: exploit_inner_as_class split: sum.splits)

lemma bandit_do_pairing_as_class:
  "bandit_do_pairing enc e sim_time serving assoc g (as_class c a)
     = map_sum id (\<lambda>(pair, g', a'). (pair, g', as_class c a'))
         (bandit_do_pairing enc e sim_time serving assoc g a)"
  by (simp add: bandit_do_pairing_def exploit_outer_as_class Let_def
      split: prod.splits sum.splits)
     (simp add: as_class_def)


lemma VSA_confirmed_as_class:
  "VSA_report_conn_confirmed t b v q (as_class c a)
     = map_sum id (as_class c) (VSA_report_conn_confirmed t b v q a)"
  by (simp add: VSA_report_conn_confirmed_def as_class_def split: option.splits)

lemma VSA_lost_as_class:
  "VSA_report_conn_lost t b v (as_class c a)
     = map_sum id (as_class c) (VSA_report_conn_lost t b v a)"
  by (simp add: VSA_report_conn_lost_def as_class_def split: option.splits sum.splits)

lemma arm_init_as_class: "arm_init k (as_class c a) = as_class c (arm_init k a)"
  by (simp add: arm_init_def as_class_def)

lemma arm_record_as_class:
  "arm_record k r (as_class c a) = map_sum id (as_class c) (arm_record k r a)"
  by (simp add: arm_record_def as_class_def split: option.splits)

lemma bandit_confirmed_as_class:
  "bandit_report_conn_confirmed enc t b v q (as_class c a)
     = map_sum id (as_class c) (bandit_report_conn_confirmed enc t b v q a)"
  by (simp add: bandit_report_conn_confirmed_def VSA_confirmed_as_class arm_init_as_class Let_def
      split: sum.splits)
     (simp add: as_class_def)

lemma bandit_lost_as_class:
  "bandit_report_conn_lost t b v (as_class c a)
     = map_sum id (as_class c) (bandit_report_conn_lost t b v a)"
  by (simp add: bandit_report_conn_lost_def VSA_lost_as_class arm_record_as_class
      split: sum.splits option.splits)
     (simp add: as_class_def)

lemma as_class_twice: "as_class c (as_class c' a) = as_class c a"
  by (simp add: as_class_def)

lemma map_sum_as_class_twice:
  "map_sum id (as_class c) (map_sum id (as_class c') x) = map_sum id (as_class c) x"
  by (cases x) (simp_all add: as_class_twice)

text \<open>
  C9. The key of class \<^verbatim>\<open>MAB\<close> is the beam identity in brackets, whatever the vehicle and
  the quality. The methods of a \<^verbatim>\<open>CMAB\<close> object are the bodies \<open>bandit_do_pairing\<close>,
  \<open>bandit_report_conn_confirmed\<close> and \<open>bandit_report_conn_lost\<close> with the contextual
  encoder; the methods of the same object as a \<^verbatim>\<open>MAB\<close> object return what these bodies
  return on the \<^verbatim>\<open>CMAB\<close> object with the beam-only encoder in its place, up to the class of
  the object returned.
\<close>

theorem MAB_is_CMAB_with_beam_key:
  "get_context e (as_class MAB a) beam vehicle cqi = ''['' @ node_id beam @ '']''
   \<and> get_context e (as_class MAB a) beam v1 q1 = get_context e (as_class MAB a) beam v2 q2
   \<and> do_pairing e sim_time serving assoc g (as_class CMAB a)
       = bandit_do_pairing (CMAB_get_context e (use_speed a)) e sim_time serving assoc g
           (as_class CMAB a)
   \<and> do_pairing e sim_time serving assoc g (as_class MAB a)
       = map_sum id (\<lambda>(pair, g', a'). (pair, g', as_class MAB a'))
           (bandit_do_pairing MAB_get_context e sim_time serving assoc g (as_class CMAB a))
   \<and> report_conn_confirmed e sim_time beam vehicle cqi (as_class CMAB a)
       = bandit_report_conn_confirmed (CMAB_get_context e (use_speed a)) sim_time beam vehicle cqi
           (as_class CMAB a)
   \<and> report_conn_confirmed e sim_time beam vehicle cqi (as_class MAB a)
       = map_sum id (as_class MAB)
           (bandit_report_conn_confirmed MAB_get_context sim_time beam vehicle cqi
              (as_class CMAB a))
   \<and> report_conn_lost sim_time beam vehicle (as_class MAB a)
       = map_sum id (as_class MAB) (report_conn_lost sim_time beam vehicle (as_class CMAB a))"
proof -
  have cm: "cls (as_class MAB a) = MAB" and cc: "cls (as_class CMAB a) = CMAB"
    and us: "use_speed (as_class CMAB a) = use_speed a"
    by (simp_all add: as_class_def)
  have gm: "get_context e (as_class MAB a) = MAB_get_context"
    by (intro ext) (simp add: get_context_def cm)
  have gc: "get_context e (as_class CMAB a) = CMAB_get_context e (use_speed a)"
    by (intro ext) (simp add: get_context_def cc us)
  have k1: "get_context e (as_class MAB a) beam vehicle cqi = ''['' @ node_id beam @ '']''"
    by (simp add: gm MAB_get_context_def)
  have k2: "get_context e (as_class MAB a) beam v1 q1 = get_context e (as_class MAB a) beam v2 q2"
    by (simp add: gm MAB_get_context_def)
  have p1: "do_pairing e sim_time serving assoc g (as_class CMAB a)
       = bandit_do_pairing (CMAB_get_context e (use_speed a)) e sim_time serving assoc g
           (as_class CMAB a)"
    by (simp add: do_pairing_def cc gc)
  have p2: "do_pairing e sim_time serving assoc g (as_class MAB a)
       = map_sum id (\<lambda>(pair, g', a'). (pair, g', as_class MAB a'))
           (bandit_do_pairing MAB_get_context e sim_time serving assoc g (as_class CMAB a))"
  proof -
    have "do_pairing e sim_time serving assoc g (as_class MAB a)
        = bandit_do_pairing MAB_get_context e sim_time serving assoc g (as_class MAB a)"
      by (simp add: do_pairing_def cm gm)
    also have "\<dots> = map_sum id (\<lambda>(pair, g', a'). (pair, g', as_class MAB a'))
           (bandit_do_pairing MAB_get_context e sim_time serving assoc g a)"
      by (rule bandit_do_pairing_as_class)
    also have "\<dots> = map_sum id (\<lambda>(pair, g', a'). (pair, g', as_class MAB a'))
           (bandit_do_pairing MAB_get_context e sim_time serving assoc g (as_class CMAB a))"
      by (cases "bandit_do_pairing MAB_get_context e sim_time serving assoc g a")
         (auto simp: bandit_do_pairing_as_class [of _ _ _ _ _ _ CMAB] as_class_twice)
    finally show ?thesis .
  qed
  have c1: "report_conn_confirmed e sim_time beam vehicle cqi (as_class CMAB a)
       = bandit_report_conn_confirmed (CMAB_get_context e (use_speed a)) sim_time beam vehicle cqi
           (as_class CMAB a)"
    by (simp add: report_conn_confirmed_def cc gc)
  have c2: "report_conn_confirmed e sim_time beam vehicle cqi (as_class MAB a)
       = map_sum id (as_class MAB)
           (bandit_report_conn_confirmed MAB_get_context sim_time beam vehicle cqi
              (as_class CMAB a))"
    by (simp add: report_conn_confirmed_def cm gm bandit_confirmed_as_class
        map_sum_as_class_twice)
  have l: "report_conn_lost sim_time beam vehicle (as_class MAB a)
       = map_sum id (as_class MAB) (report_conn_lost sim_time beam vehicle (as_class CMAB a))"
    by (simp add: report_conn_lost_def cm cc bandit_lost_as_class map_sum_as_class_twice)
  from k1 k2 p1 p2 c1 c2 l show ?thesis by (intro conjI)
qed

subsection \<open>The allocation loop keeps the references one-to-one\<close>

text \<open>
  Every algorithm returns an available beam (its \<open>serving_node\<close> is \<^verbatim>\<open>None\<close>) and a vehicle
  without service (its \<open>associated_bs\<close> is \<^verbatim>\<open>None\<close>).
\<close>

lemma hello_scan_unserved:
  "(v, q) \<in> set (hello_scan e assoc beam vl) \<Longrightarrow> assoc v = None"
  by (induction e assoc beam vl rule: hello_scan.induct) (auto split: if_splits option.splits)

lemma random_choice_in:
  "xs \<noteq> [] \<Longrightarrow> fst (random_choice g xs) \<in> set xs"
  by (simp add: random_choice_def)

lemma RandomSelection_loop_sound:
  "RandomSelection_loop e assoc available_beams g = (Some (b, v, q), g') \<Longrightarrow>
     b \<in> set available_beams \<and> assoc v = None"
proof (induction e assoc available_beams g rule: RandomSelection_loop.induct)
  case (1 e assoc available_beams g)
  from "1.prems" have ne: "available_beams \<noteq> []"
    by (auto simp: RandomSelection_loop.simps [of e assoc available_beams g])
  obtain beam g1 where rc: "random_choice g available_beams = (beam, g1)"
    by (cases "random_choice g available_beams")
  with random_choice_in [OF ne, of g] have bin: "beam \<in> set available_beams" by simp
  show ?case
  proof (cases "hello_scan e assoc beam (broadcast e beam)")
    case Nil
    with "1.prems" ne rc
    have "RandomSelection_loop e assoc (remove1 beam available_beams) g1 = (Some (b, v, q), g')"
      by (simp add: RandomSelection_loop.simps [of e assoc available_beams g])
    moreover from ne have "length available_beams \<noteq> 0" by simp
    ultimately
    have "b \<in> set (remove1 beam available_beams) \<and> assoc v = None"
      using "1.IH" [OF _ rc [symmetric] Nil] by blast
    then show ?thesis using notin_set_remove1 by fastforce
  next
    case (Cons c cs)
    obtain vc g2 where r2: "random_choice g1 (c # cs) = (vc, g2)"
      by (cases "random_choice g1 (c # cs)")
    with random_choice_in [of "c # cs" g1] have vin: "vc \<in> set (c # cs)" by simp
    obtain vehicle cqi where vc: "vc = (vehicle, cqi)" by (cases vc)
    from "1.prems" ne rc Cons r2 vc have "b = beam" "v = vehicle"
      by (simp_all add: RandomSelection_loop.simps [of e assoc available_beams g])
    moreover from vin vc Cons have "(vehicle, cqi) \<in> set (hello_scan e assoc beam (broadcast e beam))"
      by simp
    then have "assoc vehicle = None" by (rule hello_scan_unserved)
    ultimately show ?thesis using bin by simp
  qed
qed

lemma RandomSelection_do_pairing_sound:
  "RandomSelection_do_pairing e serving assoc beams g = (Some (b, v, q), g') \<Longrightarrow>
     serving b = None \<and> assoc v = None"
  using RandomSelection_loop_sound [of e assoc "filter (\<lambda>beam. serving beam = None) beams" g b v q g']
  by (simp add: RandomSelection_do_pairing_def)

lemma reply_scan_unserved:
  "(b, v, q) \<in> set (reply_scan e assoc beam vl) \<Longrightarrow> b = beam \<and> assoc v = None"
  by (induction e assoc beam vl rule: reply_scan.induct) (auto split: if_splits option.splits)

lemma candidates_sound:
  "(b, v, q) \<in> set (candidates e serving assoc beams) \<Longrightarrow> serving b = None \<and> assoc v = None"
  by (auto simp: candidates_def dest: reply_scan_unserved)

lemma HighestCQI_do_pairing_sound:
  assumes "HighestCQI_do_pairing e serving assoc beams = Some (b, v, q)"
  shows "serving b = None \<and> assoc v = None"
proof -
  from keep_first_max [where A = "\<lambda>p. True" and f = cqi_of
      and cs = "candidates e serving assoc beams"] assms
  have "(b, v, q) \<in> set (candidates e serving assoc beams)"
    by (auto simp: HighestCQI_do_pairing_fold)
  then show ?thesis by (rule candidates_sound)
qed

lemma exploit_inner_skip:
  "node_kind vehicle \<noteq> Vehicle \<or> assoc vehicle \<noteq> None \<or> unicast e vehicle beam = None \<Longrightarrow>
     exploit_inner enc e a assoc beam ((vehicle, signal) # vl) acc
       = exploit_inner enc e a assoc beam vl acc"
  by (cases acc) auto

lemma exploit_inner_keep:
  assumes "node_kind vehicle = Vehicle" and "assoc vehicle = None"
    and "unicast e vehicle beam = Some cqi"
  shows "exploit_inner enc e a assoc beam ((vehicle, signal) # vl) (h, sel) =
     (case get_past_reward a (enc beam vehicle cqi) of
        Inl err \<Rightarrow> Inl err
      | Inr None \<Rightarrow> exploit_inner enc e a assoc beam vl (h, sel)
      | Inr (Some p) \<Rightarrow>
          if p > h then exploit_inner enc e a assoc beam vl (p, Some (beam, vehicle, cqi))
          else exploit_inner enc e a assoc beam vl (h, sel))"
  using assms by simp

lemma exploit_inner_sound:
  assumes "exploit_inner enc e a assoc beam vl (h, sel) = Inr (h', sel')"
    and "\<forall>b v q. sel = Some (b, v, q) \<longrightarrow> serving b = None \<and> assoc v = None"
    and "serving beam = None"
  shows "\<forall>b v q. sel' = Some (b, v, q) \<longrightarrow> serving b = None \<and> assoc v = None"
  using assms
proof (induction vl arbitrary: h sel)
  case Nil
  then show ?case by simp
next
  case (Cons x vl)
  obtain vehicle signal where x: "x = (vehicle, signal)" by (cases x)
  show ?case
  proof (cases "node_kind vehicle \<noteq> Vehicle \<or> assoc vehicle \<noteq> None \<or> unicast e vehicle beam = None")
    case True
    from Cons.prems(1) have "exploit_inner enc e a assoc beam vl (h, sel) = Inr (h', sel')"
      using True by (simp only: x exploit_inner_skip)
    from Cons.IH [OF this Cons.prems(2,3)] show ?thesis .
  next
    case False
    then obtain cqi where u: "unicast e vehicle beam = Some cqi" and un: "assoc vehicle = None"
      and k: "node_kind vehicle = Vehicle"
      by auto
    note step = Cons.prems(1) [unfolded x exploit_inner_keep [where assoc = assoc, OF k un u]]
    have "\<exists>h1 sel1. exploit_inner enc e a assoc beam vl (h1, sel1) = Inr (h', sel')
            \<and> (sel1 = sel \<or> sel1 = Some (beam, vehicle, cqi))"
    proof (cases "get_past_reward a (enc beam vehicle cqi)")
      case (Inl err)
      with step show ?thesis by simp
    next
      case (Inr r)
      show ?thesis
      proof (cases r)
        case None
        with step Inr show ?thesis by auto
      next
        case (Some p)
        with step Inr show ?thesis by (cases "p > h") auto
      qed
    qed
    then obtain h1 sel1 where
      rest: "exploit_inner enc e a assoc beam vl (h1, sel1) = Inr (h', sel')"
      and s1: "sel1 = sel \<or> sel1 = Some (beam, vehicle, cqi)"
      by blast
    from s1 Cons.prems(2,3) un
    have "\<forall>b v q. sel1 = Some (b, v, q) \<longrightarrow> serving b = None \<and> assoc v = None" by auto
    from Cons.IH [OF rest this Cons.prems(3)] show ?thesis .
  qed
qed

lemma exploit_outer_sound:
  assumes "exploit_outer enc e a assoc beams (h, sel) = Inr (h', sel')"
    and "\<forall>b v q. sel = Some (b, v, q) \<longrightarrow> serving b = None \<and> assoc v = None"
    and "\<forall>beam\<in>set beams. serving beam = None"
  shows "\<forall>b v q. sel' = Some (b, v, q) \<longrightarrow> serving b = None \<and> assoc v = None"
  using assms
proof (induction beams arbitrary: h sel)
  case Nil
  then show ?case by simp
next
  case (Cons beam beams)
  from Cons.prems(1) obtain h1 sel1 where
    i: "exploit_inner enc e a assoc beam (broadcast e beam) (h, sel) = Inr (h1, sel1)"
    and o: "exploit_outer enc e a assoc beams (h1, sel1) = Inr (h', sel')"
    by (auto split: sum.splits)
  from Cons.prems(3) have sb: "serving beam = None" by simp
  from Cons.prems(3) have rest: "\<forall>beam\<in>set beams. serving beam = None" by simp
  from Cons.IH [OF o exploit_inner_sound [OF i Cons.prems(2) sb] rest] show ?case .
qed

lemma bandit_exploit_unfold:
  assumes "\<not> sim_time < exploration_stop_time a"
  shows "bandit_do_pairing enc e sim_time serving assoc g a =
     (if filter (\<lambda>beam. serving beam = None) (all_beams a) = [] then Inr (None, g, a)
      else (case exploit_outer enc e a assoc
                   (filter (\<lambda>beam. serving beam = None) (all_beams a)) (- 1, None) of
              Inl err \<Rightarrow> Inl err
            | Inr acc \<Rightarrow> Inr (snd acc, g, a\<lparr>total_pulled := total_pulled a + 1\<rparr>)))"
  using assms by (simp add: bandit_do_pairing_def Let_def split: sum.splits prod.splits)

lemma bandit_do_pairing_sound:
  assumes "bandit_do_pairing enc e sim_time serving assoc g a = Inr (Some (b, v, q), g', a')"
  shows "serving b = None \<and> assoc v = None"
proof (cases "sim_time < exploration_stop_time a")
  case True
  let ?R = "RandomSelection_do_pairing e serving assoc (all_beams a) g"
  from assms [unfolded bandit_explore [OF True]]
  have "fst ?R = Some (b, v, q)" and "snd ?R = g'" by simp_all
  then have "?R = (Some (b, v, q), g')" by (cases ?R) simp
  then show ?thesis by (rule RandomSelection_do_pairing_sound)
next
  case False
  let ?av = "filter (\<lambda>beam. serving beam = None) (all_beams a)"
  note run = assms [unfolded bandit_exploit_unfold [OF False]]
  show ?thesis
  proof (cases "?av = []")
    case True
    with run show ?thesis by simp
  next
    case ne: False
    show ?thesis
    proof (cases "exploit_outer enc e a assoc ?av (- 1, None)")
      case (Inl err)
      with run ne show ?thesis by simp
    next
      case (Inr acc)
      obtain h sel where acc: "acc = (h, sel)" by (cases acc)
      from run ne Inr acc have "sel = Some (b, v, q)" by simp
      with Inr acc have "exploit_outer enc e a assoc ?av (- 1, None) = Inr (h, Some (b, v, q))"
        by simp
      moreover have "\<forall>b v q. (None :: pairing option) = Some (b, v, q)
                       \<longrightarrow> serving b = None \<and> assoc v = None"
        by simp
      moreover have "\<forall>beam\<in>set ?av. serving beam = None" by simp
      ultimately have "\<forall>b' v' q'. Some (b, v, q) = Some (b', v', q')
                       \<longrightarrow> serving b' = None \<and> assoc v' = None"
        by (rule exploit_outer_sound)
      then show ?thesis by blast
    qed
  qed
qed

lemma do_pairing_sound:
  assumes "do_pairing e sim_time serving assoc g a = Inr (Some (b, v, q), g', a')"
  shows "serving b = None \<and> assoc v = None"
proof (cases "cls a")
  case VehicleSelectionAlgorithm
  with assms show ?thesis by (simp add: do_pairing_def)
next
  case RandomSelection
  with assms have "RandomSelection_do_pairing e serving assoc (all_beams a) g = (Some (b, v, q), g')"
    by (auto simp: do_pairing_def split: prod.splits)
  then show ?thesis by (rule RandomSelection_do_pairing_sound)
next
  case HighestCQI
  with assms have "HighestCQI_do_pairing e serving assoc (all_beams a) = Some (b, v, q)"
    by (auto simp: do_pairing_def)
  then show ?thesis by (rule HighestCQI_do_pairing_sound)
next
  case CMAB
  with assms have "bandit_do_pairing (get_context e a) e sim_time serving assoc g a
      = Inr (Some (b, v, q), g', a')"
    by (simp add: do_pairing_def)
  then show ?thesis by (rule bandit_do_pairing_sound)
next
  case MAB
  with assms have "bandit_do_pairing (get_context e a) e sim_time serving assoc g a
      = Inr (Some (b, v, q), g', a')"
    by (simp add: do_pairing_def)
  then show ?thesis by (rule bandit_do_pairing_sound)
qed

lemma lost_vehicle_one_to_one:
  assumes "one_to_one st" and "lost_vehicle sim_time beam st = Inr st'"
  shows "one_to_one st'"
proof -
  from assms(2) obtain vehicle where sv: "serving_node st beam = Some vehicle"
    and st': "st' = st\<lparr>associated_bs := (associated_bs st)(vehicle := None),
                       serving_node := (serving_node st)(beam := None)\<rparr>"
    by (auto simp: lost_vehicle_def lost_bs_def Let_def split: option.splits)
  from assms(1) sv have av: "associated_bs st vehicle = Some beam"
    by (simp add: one_to_one_def)
  show ?thesis
    unfolding one_to_one_def
  proof (intro allI)
    fix b v
    have inv: "\<And>b v. serving_node st b = Some v \<longleftrightarrow> associated_bs st v = Some b"
      using assms(1) by (simp add: one_to_one_def)
    show "serving_node st' b = Some v \<longleftrightarrow> associated_bs st' v = Some b"
      using sv av inv [of beam v] inv [of b vehicle] inv [of b v]
      by (cases "b = beam"; cases "v = vehicle") (auto simp: st')
  qed
qed

lemma connect_vehicle_one_to_one:
  assumes "one_to_one st" and "serving_node st beam = None" and "associated_bs st vehicle = None"
  shows "one_to_one (connect_vehicle vehicle sim_time cqi beam st)"
  unfolding one_to_one_def
proof (intro allI)
  fix b v
  have inv: "\<And>b v. serving_node st b = Some v \<longleftrightarrow> associated_bs st v = Some b"
    using assms(1) by (simp add: one_to_one_def)
  show "serving_node (connect_vehicle vehicle sim_time cqi beam st) b = Some v
          \<longleftrightarrow> associated_bs (connect_vehicle vehicle sim_time cqi beam st) v = Some b"
    using assms(2,3) inv [of beam v] inv [of b vehicle] inv [of b v]
    by (cases "b = beam"; cases "v = vehicle") (auto simp: connect_vehicle_def connect_bs_def)
qed

lemma one_to_one_algo [simp]:
  "one_to_one (st\<lparr>my_algorithm := a\<rparr>) = one_to_one st"
  "one_to_one (st\<lparr>my_algorithm := a, random_source := g\<rparr>) = one_to_one st"
  by (simp_all add: one_to_one_def)

lemma release_loop_one_to_one:
  "one_to_one st \<Longrightarrow> release_loop e sim_time beams st = Inr st' \<Longrightarrow> one_to_one st'"
proof (induction beams arbitrary: st)
  case Nil
  then show ?case by simp
next
  case (Cons beam beams)
  show ?case
  proof (cases "serving_node st beam")
    case None
    with Cons show ?thesis by simp
  next
    case (Some vehicle)
    show ?thesis
    proof (cases "send_hello_to e beam vehicle")
      case (Some q)
      with Cons \<open>serving_node st beam = Some vehicle\<close> show ?thesis by simp
    next
      case None
      with Cons.prems(2) \<open>serving_node st beam = Some vehicle\<close> obtain st1 a' where
        l: "lost_vehicle sim_time beam st = Inr st1"
        and r: "release_loop e sim_time beams (st1\<lparr>my_algorithm := a'\<rparr>) = Inr st'"
        by (auto split: sum.splits)
      from lost_vehicle_one_to_one [OF Cons.prems(1) l]
      have "one_to_one (st1\<lparr>my_algorithm := a'\<rparr>)" by simp
      from Cons.IH [OF this r] show ?thesis .
    qed
  qed
qed

lemma fill_loop_one_to_one:
  "one_to_one st \<Longrightarrow> fill_loop e sim_time K n st = Inr st' \<Longrightarrow> one_to_one st'"
proof (induction e sim_time K n st rule: fill_loop.induct)
  case (1 e sim_time K n st)
  show ?case
  proof (cases "n < K")
    case False
    with "1.prems" show ?thesis by (simp add: fill_loop.simps [of e sim_time K n st])
  next
    case True
    from "1.prems"(2) True obtain r where
      dp: "do_pairing e sim_time (serving_node st) (associated_bs st)
             (random_source st) (my_algorithm st) = Inr r"
      by (auto simp: fill_loop.simps [of e sim_time K n st] split: sum.splits)
    obtain pair g' a' where r: "r = (pair, g', a')" by (cases r)
    show ?thesis
    proof (cases pair)
      case None
      with "1.prems" True dp r show ?thesis
        by (auto simp: fill_loop.simps [of e sim_time K n st])
    next
      case (Some c)
      obtain beam vehicle cqi where c: "c = (beam, vehicle, cqi)" by (cases c)
      let ?st1 = "connect_vehicle vehicle sim_time cqi beam
                    (st\<lparr>my_algorithm := a', random_source := g'\<rparr>)"
      from "1.prems"(2) True dp r Some c obtain a'' where
        rc: "report_conn_confirmed e sim_time beam vehicle cqi (my_algorithm ?st1) = Inr a''"
        and rest: "fill_loop e sim_time K (n + 1) (?st1\<lparr>my_algorithm := a''\<rparr>) = Inr st'"
        by (auto simp: fill_loop.simps [of e sim_time K n st] Let_def split: sum.splits)
      from do_pairing_sound [OF dp [unfolded r Some c]]
      have idle: "serving_node st beam = None" and un: "associated_bs st vehicle = None"
        by simp_all
      have "one_to_one ?st1"
        by (rule connect_vehicle_one_to_one) (use "1.prems"(1) idle un in simp_all)
      then have inv: "one_to_one (?st1\<lparr>my_algorithm := a''\<rparr>)" by simp
      from "1.IH" [OF True dp [unfolded r Some c] refl refl refl refl refl refl rc inv rest]
      show ?thesis .
    qed
  qed
qed


lemma fill_loop_stop:
  "\<not> n < K \<Longrightarrow> fill_loop e sim_time K n st = Inr st"
  by (simp add: fill_loop.simps [of e sim_time K n st])

lemma fill_loop_step:
  "n < K \<Longrightarrow> fill_loop e sim_time K n st =
     (case do_pairing e sim_time (serving_node st) (associated_bs st)
             (random_source st) (my_algorithm st) of
        Inl err \<Rightarrow> Inl err
      | Inr (None, g', a') \<Rightarrow> Inr (st\<lparr>my_algorithm := a', random_source := g'\<rparr>)
      | Inr (Some (beam, vehicle, cqi), g', a') \<Rightarrow>
          (let st1 = connect_vehicle vehicle sim_time cqi beam
                       (st\<lparr>my_algorithm := a', random_source := g'\<rparr>)
           in (case report_conn_confirmed e sim_time beam vehicle cqi (my_algorithm st1) of
                 Inl err \<Rightarrow> Inl err
               | Inr a'' \<Rightarrow>
                   fill_loop e sim_time K (n + 1) (st1\<lparr>my_algorithm := a''\<rparr>))))"
  by (simp add: fill_loop.simps [of e sim_time K n st])

lemma do_mobility_one_to_one:
  assumes "one_to_one st" and "do_mobility e sim_time st = Inr st'"
  shows "one_to_one st'"
proof -
  from assms(2) obtain st1 where r: "release_loop e sim_time (bs_beams st) st = Inr st1"
    and f: "fill_loop e sim_time (max_active_beam st1) (count_active st1) st1 = Inr st'"
    by (auto simp: do_mobility_def split: sum.splits)
  from release_loop_one_to_one [OF assms(1) r] have "one_to_one st1" .
  from fill_loop_one_to_one [OF this f] show ?thesis .
qed

lemma run_steps_one_to_one:
  "one_to_one st \<Longrightarrow> run_steps steps st = Inr st' \<Longrightarrow> one_to_one st'"
proof (induction steps arbitrary: st)
  case Nil
  then show ?case by simp
next
  case (Cons step steps)
  obtain e sim_time where step: "step = (e, sim_time)" by (cases step)
  from Cons.prems(2) obtain st1 where m: "do_mobility e sim_time st = Inr st1"
    and r: "run_steps steps st1 = Inr st'"
    by (auto simp: step split: sum.splits)
  from Cons.IH [OF do_mobility_one_to_one [OF Cons.prems(1) m] r] show ?case .
qed

lemma scenario_init_one_to_one: "one_to_one (scenario_init beams K a g)"
  by (simp add: one_to_one_def scenario_init_def)

text \<open>
  No step raises: the calls of the allocation loop keep the bookkeeping of the algorithm
  object in step with the serving references, so every dictionary lookup finds its key
  and every tracker that is ended has been begun.
\<close>

lemma do_pairing_serving_cong:
  assumes "filter (\<lambda>beam. s1 beam = None) (all_beams a) = filter (\<lambda>beam. s2 beam = None) (all_beams a)"
  shows "do_pairing e sim_time s1 assoc g a = do_pairing e sim_time s2 assoc g a"
proof -
  have r: "RandomSelection_do_pairing e s1 assoc (all_beams a) g
         = RandomSelection_do_pairing e s2 assoc (all_beams a) g"
    using assms by (simp add: RandomSelection_do_pairing_def)
  have h: "HighestCQI_do_pairing e s1 assoc (all_beams a)
         = HighestCQI_do_pairing e s2 assoc (all_beams a)"
    using assms by (simp add: HighestCQI_do_pairing_def)
  have b: "bandit_do_pairing enc e sim_time s1 assoc g a
         = bandit_do_pairing enc e sim_time s2 assoc g a" for enc
    using assms r by (simp add: bandit_do_pairing_def)
  show ?thesis
    by (cases "cls a") (simp_all add: do_pairing_def r h b)
qed

lemma do_pairing_beam:
  assumes "do_pairing e sim_time serving assoc g a = Inr (Some (b, v, q), g', a')"
  shows "b \<in> set (all_beams a)"
proof -
  let ?s = "\<lambda>beam. if beam \<in> set (all_beams a) then serving beam else Some beam"
  have "filter (\<lambda>beam. ?s beam = None) (all_beams a)
          = filter (\<lambda>beam. serving beam = None) (all_beams a)"
    by (rule filter_cong) auto
  from do_pairing_serving_cong [OF this] assms
  have "do_pairing e sim_time ?s assoc g a = Inr (Some (b, v, q), g', a')" by simp
  from do_pairing_sound [OF this] have "?s b = None" by simp
  then show ?thesis by (simp split: if_splits)
qed

lemma same_keys_count_keys: "same_keys a \<Longrightarrow> count_keys_present a"
  by (simp add: same_keys_def count_keys_present_def)

lemma bandit_do_pairing_completes:
  assumes "count_keys_present a"
  shows "\<exists>pair g' a'. bandit_do_pairing enc e sim_time serving assoc g a = Inr (pair, g', a')
           \<and> (a' = a \<or> a' = a\<lparr>total_pulled := total_pulled a + 1\<rparr>)"
proof (cases "sim_time < exploration_stop_time a")
  case True
  from bandit_explore [OF True] show ?thesis by blast
next
  case False
  from bandit_exploit_fold [OF False assms, of enc e serving assoc g]
  obtain pair a' where r: "bandit_do_pairing enc e sim_time serving assoc g a = Inr (pair, g, a')"
    by blast
  from bandit_exploit_counter [OF False r] r show ?thesis by auto
qed

lemma do_pairing_completes:
  assumes "is_bandit a \<longrightarrow> count_keys_present a"
  shows "\<exists>pair g' a'. do_pairing e sim_time serving assoc g a = Inr (pair, g', a')
           \<and> (a' = a \<or> a' = a\<lparr>total_pulled := total_pulled a + 1\<rparr>)"
proof (cases "cls a")
  case VehicleSelectionAlgorithm
  then show ?thesis by (simp add: do_pairing_def)
next
  case RandomSelection
  then show ?thesis by (simp add: do_pairing_def split: prod.splits)
next
  case HighestCQI
  then show ?thesis by (simp add: do_pairing_def)
next
  case CMAB
  with assms have "count_keys_present a" by (simp add: is_bandit_def)
  from bandit_do_pairing_completes [OF this] CMAB show ?thesis by (simp add: do_pairing_def)
next
  case MAB
  with assms have "count_keys_present a" by (simp add: is_bandit_def)
  from bandit_do_pairing_completes [OF this] MAB show ?thesis by (simp add: do_pairing_def)
qed

lemma bookkeeping_ok_total_pulled:
  "bookkeeping_ok serving (a\<lparr>total_pulled := n\<rparr>) = bookkeeping_ok serving a"
  by (simp add: bookkeeping_ok_def is_bandit_def same_keys_def pending_ok_def)

lemma VSA_confirmed_eq:
  assumes "stats a b = Some s" and "stats2 a b = Some s2"
  shows "VSA_report_conn_confirmed t b v q a =
           Inr (a\<lparr>stats := (stats a)(b \<mapsto> conn_begin t s),
                   stats2 := (stats2 a)(b \<mapsto> conn_begin t s2)\<rparr>)"
  using assms by (simp add: VSA_report_conn_confirmed_def)

lemma VSA_lost_eq:
  assumes "stats a b = Some s" and "conn_start_time s = Some t1"
    and "stats2 a b = Some s2" and "conn_start_time s2 = Some t2"
  shows "VSA_report_conn_lost t b v a =
           Inr (a\<lparr>stats := (stats a)(b \<mapsto> s\<lparr>total_time := total_time s + (t - t1),
                                               total_conn := total_conn s + 1\<rparr>),
                   stats2 := (stats2 a)(b \<mapsto> s2\<lparr>total_time := total_time s2 + (t - t2),
                                                 total_conn := total_conn s2 + 1\<rparr>)\<rparr>)"
  using assms by (simp add: VSA_report_conn_lost_def conn_end_def)


lemma arm_init_stats:
  "stats (arm_init k a) = stats a \<and> stats2 (arm_init k a) = stats2 a
   \<and> all_beams (arm_init k a) = all_beams a"
  by (simp add: arm_init_def)

lemma arm_record_stats:
  "arm_record k r a = Inr a' \<Longrightarrow>
     stats a' = stats a \<and> stats2 a' = stats2 a \<and> all_beams a' = all_beams a"
  by (auto simp: arm_record_def split: option.splits)

lemma bandit_confirmed_stats:
  assumes "bandit_report_conn_confirmed enc t b v q a = Inr a'"
    and "VSA_report_conn_confirmed t b v q a = Inr a1"
  shows "stats a' = stats a1 \<and> stats2 a' = stats2 a1 \<and> all_beams a' = all_beams a1"
  using assms by (auto simp: bandit_report_conn_confirmed_def Let_def arm_init_stats)

lemma bandit_lost_stats:
  assumes "bandit_report_conn_lost t b v a = Inr a'"
    and "VSA_report_conn_lost t b v a = Inr a1"
  shows "stats a' = stats a1 \<and> stats2 a' = stats2 a1 \<and> all_beams a' = all_beams a1"
  using assms
  by (auto simp: bandit_report_conn_lost_def split: option.splits dest: arm_record_stats)

lemma is_bandit_cases: "is_bandit a \<Longrightarrow>
    report_conn_confirmed e t b v q a = bandit_report_conn_confirmed (get_context e a) t b v q a
    \<and> report_conn_lost t b v a = bandit_report_conn_lost t b v a"
  by (auto simp: is_bandit_def report_conn_confirmed_def report_conn_lost_def)

lemma not_bandit_cases: "\<not> is_bandit a \<Longrightarrow>
    report_conn_confirmed e t b v q a = VSA_report_conn_confirmed t b v q a
    \<and> report_conn_lost t b v a = VSA_report_conn_lost t b v a"
  by (cases "cls a") (simp_all add: is_bandit_def report_conn_confirmed_def report_conn_lost_def)

lemma bookkeeping_ok_started:
  "bookkeeping_ok serving a \<Longrightarrow> serving b = Some v \<Longrightarrow>
     \<exists>s s2. stats a b = Some s \<and> conn_start_time s \<noteq> None
           \<and> stats2 a b = Some s2 \<and> conn_start_time s2 \<noteq> None"
  unfolding bookkeeping_ok_def by blast

lemma report_conn_confirmed_ok:
  assumes ok: "bookkeeping_ok serving a" and bin: "b \<in> set (all_beams a)"
  shows "\<exists>a'. report_conn_confirmed e t b v q a = Inr a' \<and> bookkeeping_ok (serving(b \<mapsto> v)) a'"
proof -
  from ok bin obtain s s2 where s: "stats a b = Some s" and s2: "stats2 a b = Some s2"
    unfolding bookkeeping_ok_def by fastforce
  let ?a1 = "a\<lparr>stats := (stats a)(b \<mapsto> conn_begin t s),
               stats2 := (stats2 a)(b \<mapsto> conn_begin t s2)\<rparr>"
  have v1: "VSA_report_conn_confirmed t b v q a = Inr ?a1"
    by (rule VSA_confirmed_eq [OF s s2])
  have beams: "\<forall>b'\<in>set (all_beams a). stats ?a1 b' \<noteq> None \<and> stats2 ?a1 b' \<noteq> None"
    using ok unfolding bookkeeping_ok_def by simp
  have started: "\<forall>b' v'. (serving(b \<mapsto> v)) b' = Some v' \<longrightarrow>
           (\<exists>s s2. stats ?a1 b' = Some s \<and> conn_start_time s \<noteq> None
                 \<and> stats2 ?a1 b' = Some s2 \<and> conn_start_time s2 \<noteq> None)"
  proof (intro allI impI)
    fix b' v' assume h: "(serving(b \<mapsto> v)) b' = Some v'"
    show "\<exists>s s2. stats ?a1 b' = Some s \<and> conn_start_time s \<noteq> None
                 \<and> stats2 ?a1 b' = Some s2 \<and> conn_start_time s2 \<noteq> None"
    proof (cases "b' = b")
      case True
      then show ?thesis by (simp add: conn_begin_def)
    next
      case False
      with h have "serving b' = Some v'" by simp
      from bookkeeping_ok_started [OF ok this] False show ?thesis by simp
    qed
  qed
  show ?thesis
  proof (cases "is_bandit a")
    case False
    then have r: "report_conn_confirmed e t b v q a = Inr ?a1"
      using not_bandit_cases v1 by simp
    have nb: "\<not> is_bandit ?a1" using False by (simp add: is_bandit_def)
    have "bookkeeping_ok (serving(b \<mapsto> v)) ?a1"
      unfolding bookkeeping_ok_def using beams started nb by simp
    with r show ?thesis by blast
  next
    case True
    let ?enc = "get_context e a"
    obtain a' where a': "bandit_report_conn_confirmed ?enc t b v q a = Inr a'"
      using v1 by (simp add: bandit_report_conn_confirmed_def Let_def)
    then have r: "report_conn_confirmed e t b v q a = Inr a'"
      using is_bandit_cases [OF True] by simp
    note st = bandit_confirmed_step [OF a']
    note fr = bandit_confirmed_stats [OF a' v1]
    from ok True have sk: "same_keys a" and pk: "pending_ok a"
      unfolding bookkeeping_ok_def by simp_all
    have tb: "is_bandit a'" using True st(1) by (simp add: is_bandit_def)
    have info: "\<forall>b' v'. (serving(b \<mapsto> v)) b' = Some v' \<longrightarrow> arm_info a' v' \<noteq> None"
      using ok True unfolding bookkeeping_ok_def st(3) by auto
    have "bookkeeping_ok (serving(b \<mapsto> v)) a'"
      unfolding bookkeeping_ok_def
      using beams started info st(4) [OF sk] st(5) [OF sk pk] fr by simp
    with r show ?thesis by blast
  qed
qed

lemma report_conn_lost_ok:
  assumes ok: "bookkeeping_ok serving a" and sv: "serving b = Some v"
  shows "\<exists>a'. report_conn_lost t b v a = Inr a' \<and> bookkeeping_ok (serving(b := None)) a'"
proof -
  from ok sv obtain s s2 t1 t2 where s: "stats a b = Some s" and s2: "stats2 a b = Some s2"
    and t1: "conn_start_time s = Some t1" and t2: "conn_start_time s2 = Some t2"
    unfolding bookkeeping_ok_def by fastforce
  let ?a1 = "a\<lparr>stats := (stats a)(b \<mapsto> s\<lparr>total_time := total_time s + (t - t1),
                                           total_conn := total_conn s + 1\<rparr>),
               stats2 := (stats2 a)(b \<mapsto> s2\<lparr>total_time := total_time s2 + (t - t2),
                                             total_conn := total_conn s2 + 1\<rparr>)\<rparr>"
  have v1: "VSA_report_conn_lost t b v a = Inr ?a1"
    by (rule VSA_lost_eq [OF s t1 s2 t2])
  have beams: "\<forall>b'\<in>set (all_beams a). stats ?a1 b' \<noteq> None \<and> stats2 ?a1 b' \<noteq> None"
    using ok unfolding bookkeeping_ok_def by simp
  have started: "\<forall>b' v'. (serving(b := None)) b' = Some v' \<longrightarrow>
           (\<exists>s s2. stats ?a1 b' = Some s \<and> conn_start_time s \<noteq> None
                 \<and> stats2 ?a1 b' = Some s2 \<and> conn_start_time s2 \<noteq> None)"
  proof (intro allI impI)
    fix b' v' assume h: "(serving(b := None)) b' = Some v'"
    then have ne: "b' \<noteq> b" and "serving b' = Some v'" by (auto split: if_splits)
    from bookkeeping_ok_started [OF ok this(2)] ne
    show "\<exists>s s2. stats ?a1 b' = Some s \<and> conn_start_time s \<noteq> None
                 \<and> stats2 ?a1 b' = Some s2 \<and> conn_start_time s2 \<noteq> None"
      by simp
  qed
  show ?thesis
  proof (cases "is_bandit a")
    case False
    then have r: "report_conn_lost t b v a = Inr ?a1"
      using not_bandit_cases v1 by simp
    have nb: "\<not> is_bandit ?a1" using False by (simp add: is_bandit_def)
    have "bookkeeping_ok (serving(b := None)) ?a1"
      unfolding bookkeeping_ok_def using beams started nb by simp
    with r show ?thesis by blast
  next
    case True
    from ok True have sk: "same_keys a" and pk: "pending_ok a"
      unfolding bookkeeping_ok_def by simp_all
    from ok sv True obtain ctx t0 where ai: "arm_info a v = Some (ctx, t0)"
      unfolding bookkeeping_ok_def by fastforce
    with pk obtain r n where rr: "arm_total_reward a ctx = Some r"
      and nn: "arm_total_count a ctx = Some n"
      unfolding pending_ok_def by fastforce
    obtain a' where a': "bandit_report_conn_lost t b v a = Inr a'"
      using v1 ai rr nn by (simp add: bandit_report_conn_lost_def arm_record_def)
    then have r: "report_conn_lost t b v a = Inr a'"
      using is_bandit_cases [OF True] by simp
    note st = bandit_lost_step [OF a']
    note fr = bandit_lost_stats [OF a' v1]
    have tb: "is_bandit a'" using True st(1) by (simp add: is_bandit_def)
    have info: "\<forall>b' v'. (serving(b := None)) b' = Some v' \<longrightarrow> arm_info a' v' \<noteq> None"
      using ok True unfolding bookkeeping_ok_def st(3) by auto
    have "bookkeeping_ok (serving(b := None)) a'"
      unfolding bookkeeping_ok_def
      using beams started info st(4) [OF sk] st(5) [OF pk] fr by simp
    with r show ?thesis by blast
  qed
qed


lemma lost_vehicle_eq:
  "serving_node st beam = Some vehicle \<Longrightarrow>
     lost_vehicle sim_time beam st =
       Inr (st\<lparr>associated_bs := (associated_bs st)(vehicle := None),
               serving_node := (serving_node st)(beam := None)\<rparr>)"
  by (simp add: lost_vehicle_def lost_bs_def)

lemma release_loop_completes:
  "scenario_ok st \<Longrightarrow>
     \<exists>st'. release_loop e sim_time beams st = Inr st' \<and> scenario_ok st'"
proof (induction beams arbitrary: st)
  case Nil
  then show ?case by simp
next
  case (Cons beam beams)
  show ?case
  proof (cases "serving_node st beam")
    case None
    with Cons.IH [OF Cons.prems] show ?thesis by simp
  next
    case (Some vehicle)
    show ?thesis
    proof (cases "send_hello_to e beam vehicle")
      case (Some q)
      with Cons.IH [OF Cons.prems] \<open>serving_node st beam = Some vehicle\<close> show ?thesis by simp
    next
      case None
      let ?st1 = "st\<lparr>associated_bs := (associated_bs st)(vehicle := None),
                      serving_node := (serving_node st)(beam := None)\<rparr>"
      note sv = \<open>serving_node st beam = Some vehicle\<close>
      have l: "lost_vehicle sim_time beam st = Inr ?st1" by (rule lost_vehicle_eq [OF sv])
      from Cons.prems have ok: "bookkeeping_ok (serving_node st) (my_algorithm st)"
        by (simp add: scenario_ok_def)
      from report_conn_lost_ok [OF ok sv, of sim_time]
      obtain a' where r: "report_conn_lost sim_time beam vehicle (my_algorithm st) = Inr a'"
        and ok': "bookkeeping_ok ((serving_node st)(beam := None)) a'"
        by blast
      have "scenario_ok (?st1\<lparr>my_algorithm := a'\<rparr>)"
        using ok' by (simp add: scenario_ok_def)
      from Cons.IH [OF this] obtain st' where
        "release_loop e sim_time beams (?st1\<lparr>my_algorithm := a'\<rparr>) = Inr st'"
        and "scenario_ok st'"
        by blast
      then show ?thesis using sv None l r by simp
    qed
  qed
qed

lemma fill_loop_completes:
  "scenario_ok st \<Longrightarrow>
     \<exists>st'. fill_loop e sim_time K n st = Inr st' \<and> scenario_ok st'"
proof (induction e sim_time K n st rule: fill_loop.induct)
  case (1 e sim_time K n st)
  show ?case
  proof (cases "n < K")
    case False
    with "1.prems" show ?thesis by (simp add: fill_loop_stop)
  next
    case True
    let ?a = "my_algorithm st"
    from "1.prems" have ok: "bookkeeping_ok (serving_node st) ?a"
      by (simp add: scenario_ok_def)
    then have "is_bandit ?a \<longrightarrow> count_keys_present ?a"
      by (simp add: bookkeeping_ok_def same_keys_count_keys)
    from do_pairing_completes [OF this, of e sim_time "serving_node st" "associated_bs st"
        "random_source st"]
    obtain pair g' a' where
      dp: "do_pairing e sim_time (serving_node st) (associated_bs st)
             (random_source st) ?a = Inr (pair, g', a')"
      and fr: "a' = ?a \<or> a' = ?a\<lparr>total_pulled := total_pulled ?a + 1\<rparr>"
      by blast
    from fr ok have ok': "bookkeeping_ok (serving_node st) a'"
      by (auto simp: bookkeeping_ok_total_pulled)
    from fr have beams: "all_beams a' = all_beams ?a" by auto
    show ?thesis
    proof (cases pair)
      case None
      have "scenario_ok (st\<lparr>my_algorithm := a', random_source := g'\<rparr>)"
        using ok' by (simp add: scenario_ok_def)
      then show ?thesis using True dp None by (simp add: fill_loop_step)
    next
      case (Some c)
      obtain beam vehicle cqi where c: "c = (beam, vehicle, cqi)" by (cases c)
      note dp' = dp [unfolded Some c]
      from do_pairing_beam [OF dp'] beams have bin: "beam \<in> set (all_beams a')" by simp
      let ?st1 = "connect_vehicle vehicle sim_time cqi beam
                    (st\<lparr>my_algorithm := a', random_source := g'\<rparr>)"
      have a1: "my_algorithm ?st1 = a'"
        and s1: "serving_node ?st1 = (serving_node st)(beam \<mapsto> vehicle)"
        by (simp_all add: connect_vehicle_def connect_bs_def)
      from report_conn_confirmed_ok [OF ok' bin, of e sim_time vehicle cqi]
      obtain a'' where rc: "report_conn_confirmed e sim_time beam vehicle cqi a' = Inr a''"
        and ok'': "bookkeeping_ok ((serving_node st)(beam \<mapsto> vehicle)) a''"
        by blast
      have inv: "scenario_ok (?st1\<lparr>my_algorithm := a''\<rparr>)"
        using ok'' s1 by (simp add: scenario_ok_def)
      have rc': "report_conn_confirmed e sim_time beam vehicle cqi (my_algorithm ?st1) = Inr a''"
        using rc a1 by simp
      from "1.IH" [OF True dp' refl refl refl refl refl refl rc' inv]
      obtain st' where "fill_loop e sim_time K (n + 1) (?st1\<lparr>my_algorithm := a''\<rparr>) = Inr st'"
        and "scenario_ok st'"
        by blast
      then show ?thesis using True dp' rc' by (simp add: fill_loop_step Let_def)
    qed
  qed
qed

lemma do_mobility_completes:
  assumes "scenario_ok st"
  shows "\<exists>st'. do_mobility e sim_time st = Inr st' \<and> scenario_ok st'"
proof -
  from release_loop_completes [OF assms, of e sim_time "bs_beams st"]
  obtain st1 where r: "release_loop e sim_time (bs_beams st) st = Inr st1"
    and ok1: "scenario_ok st1"
    by blast
  from fill_loop_completes [OF ok1, of e sim_time "max_active_beam st1" "count_active st1"] r
  show ?thesis by (simp add: do_mobility_def)
qed

lemma run_steps_completes:
  "scenario_ok st \<Longrightarrow> \<exists>st'. run_steps steps st = Inr st' \<and> scenario_ok st'"
proof (induction steps arbitrary: st)
  case Nil
  then show ?case by simp
next
  case (Cons step steps)
  obtain e sim_time where step: "step = (e, sim_time)" by (cases step)
  from do_mobility_completes [OF Cons.prems, of e sim_time]
  obtain st1 where m: "do_mobility e sim_time st = Inr st1" and ok1: "scenario_ok st1"
    by blast
  from Cons.IH [OF ok1] m show ?case by (simp add: step)
qed

lemma algo_init_ok:
  "bookkeeping_ok Map.empty (mab_setting stop_time use_speed_opt (algo_init c beams tu))"
  by (cases stop_time; cases use_speed_opt)
     (simp_all add: bookkeeping_ok_def mab_setting_def algo_init_def same_keys_def pending_ok_def)

lemma run_steps_never_fails:
  "\<exists>st. run_steps steps
           (scenario_init beams K (mab_setting stop_time use_speed_opt (algo_init c beams tu)) g)
         = Inr st"
proof -
  have "scenario_ok
          (scenario_init beams K (mab_setting stop_time use_speed_opt (algo_init c beams tu)) g)"
    using algo_init_ok [of stop_time use_speed_opt c beams tu]
    by (simp add: scenario_ok_def scenario_init_def)
  from run_steps_completes [OF this] show ?thesis by blast
qed


text \<open>One step with three beams, a limit of two and the highest-quality algorithm.\<close>

lemma one_step_example:
  "(case run_steps [(env3, 1)]
          (scenario_init [Node ''B1'' BS, Node ''B2'' BS, Node ''B3'' BS] 2
             (algo_init HighestCQI [Node ''B1'' BS, Node ''B2'' BS, Node ''B3'' BS] 1) (\<lambda>n. 0)) of
      Inl err \<Rightarrow> False
    | Inr st \<Rightarrow>
        serving_node st (Node ''B1'' BS) = None
        \<and> serving_node st (Node ''B2'' BS) = Some (Node ''C2'' Vehicle)
        \<and> serving_node st (Node ''B3'' BS) = Some (Node ''C3'' Vehicle)
        \<and> associated_bs st (Node ''C1'' Vehicle) = None
        \<and> associated_bs st (Node ''C2'' Vehicle) = Some (Node ''B2'' BS)
        \<and> associated_bs st (Node ''C3'' Vehicle) = Some (Node ''B3'' BS))"
  by (simp add: do_mobility_def scenario_init_def algo_init_def count_active_def
      fill_loop_stop fill_loop_step do_pairing_def HighestCQI_do_pairing_def env3_def
      connect_vehicle_def connect_bs_def report_conn_confirmed_def
      VSA_report_conn_confirmed_def Stats_init_def conn_begin_def Let_def)

text \<open>
  C1. A run from the state set up by \<^verbatim>\<open>on_create\<close> (no beam serves, no vehicle is
  associated, the algorithm object is freshly constructed for the beams of the scenario)
  completes every step without an exception, with any of the algorithms, any simulator
  answers and any random draws. After every step that completes, from whatever algorithm
  object: a beam's serving reference names a vehicle exactly when that vehicle's
  back-reference names the beam; a beam's serving reference is \<^verbatim>\<open>None\<close> exactly when no
  vehicle's back-reference names it (the code has no separate idle flag: a beam is idle
  when its serving reference is \<^verbatim>\<open>None\<close>); and no vehicle is the serving reference of two
  beams.
\<close>

theorem references_one_to_one:
  "(\<exists>st. run_steps steps
            (scenario_init beams K (mab_setting stop_time use_speed_opt (algo_init c beams tu)) g)
          = Inr st)
   \<and> (\<forall>st. run_steps steps (scenario_init beams K a g) = Inr st \<longrightarrow>
         (\<forall>b v. serving_node st b = Some v \<longleftrightarrow> associated_bs st v = Some b)
         \<and> (\<forall>b. serving_node st b = None \<longleftrightarrow> (\<forall>v. associated_bs st v \<noteq> Some b))
         \<and> (\<forall>b1 b2 v. serving_node st b1 = Some v \<and> serving_node st b2 = Some v \<longrightarrow> b1 = b2))"
proof -
  have completes: "\<exists>st. run_steps steps
            (scenario_init beams K (mab_setting stop_time use_speed_opt (algo_init c beams tu)) g)
          = Inr st"
    by (rule run_steps_never_fails)
  have refs: "(\<forall>b v. serving_node st b = Some v \<longleftrightarrow> associated_bs st v = Some b)
         \<and> (\<forall>b. serving_node st b = None \<longleftrightarrow> (\<forall>v. associated_bs st v \<noteq> Some b))
         \<and> (\<forall>b1 b2 v. serving_node st b1 = Some v \<and> serving_node st b2 = Some v \<longrightarrow> b1 = b2)"
    if run: "run_steps steps (scenario_init beams K a g) = Inr st" for st
  proof -
    from run_steps_one_to_one [OF scenario_init_one_to_one run]
    have inv: "\<And>b v. serving_node st b = Some v \<longleftrightarrow> associated_bs st v = Some b"
      by (simp add: one_to_one_def)
    have p1: "\<forall>b v. serving_node st b = Some v \<longleftrightarrow> associated_bs st v = Some b"
      using inv by blast
    have p2: "\<forall>b. serving_node st b = None \<longleftrightarrow> (\<forall>v. associated_bs st v \<noteq> Some b)"
    proof
      fix b
      show "serving_node st b = None \<longleftrightarrow> (\<forall>v. associated_bs st v \<noteq> Some b)"
        using inv [of b] by (cases "serving_node st b") auto
    qed
    have p3: "\<forall>b1 b2 v. serving_node st b1 = Some v \<and> serving_node st b2 = Some v \<longrightarrow> b1 = b2"
    proof (intro allI impI)
      fix b1 b2 v
      assume "serving_node st b1 = Some v \<and> serving_node st b2 = Some v"
      then have "associated_bs st v = Some b1" and "associated_bs st v = Some b2"
        using inv [of b1 v] inv [of b2 v] by blast+
      then show "b1 = b2" by simp
    qed
    from p1 p2 p3 show ?thesis by (intro conjI)
  qed
  from completes refs show ?thesis by blast
qed

theorem references_one_to_one_witness:
  "(case run_steps [(env3, 1)]
          (scenario_init [Node ''B1'' BS, Node ''B2'' BS, Node ''B3'' BS] 2
             (algo_init HighestCQI [Node ''B1'' BS, Node ''B2'' BS, Node ''B3'' BS] 1) (\<lambda>n. 0)) of
      Inl err \<Rightarrow> False
    | Inr st \<Rightarrow>
        serving_node st (Node ''B2'' BS) = Some (Node ''C2'' Vehicle)
        \<and> serving_node st (Node ''B3'' BS) = Some (Node ''C3'' Vehicle)
        \<and> (\<forall>b v. serving_node st b = Some v \<longleftrightarrow> associated_bs st v = Some b)
        \<and> (\<forall>b. serving_node st b = None \<longleftrightarrow> (\<forall>v. associated_bs st v \<noteq> Some b))
        \<and> (\<forall>b1 b2 v. serving_node st b1 = Some v \<and> serving_node st b2 = Some v \<longrightarrow> b1 = b2))"
proof -
  let ?run = "run_steps [(env3, 1)]
          (scenario_init [Node ''B1'' BS, Node ''B2'' BS, Node ''B3'' BS] 2
             (algo_init HighestCQI [Node ''B1'' BS, Node ''B2'' BS, Node ''B3'' BS] 1) (\<lambda>n. 0))"
  from one_step_example obtain st where run: "?run = Inr st"
    and s2: "serving_node st (Node ''B2'' BS) = Some (Node ''C2'' Vehicle)"
    and s3: "serving_node st (Node ''B3'' BS) = Some (Node ''C3'' Vehicle)"
    by (cases ?run) simp_all
  from references_one_to_one
         [of "[(env3, 1)]" "[Node ''B1'' BS, Node ''B2'' BS, Node ''B3'' BS]" 2 None None
             HighestCQI 1 "\<lambda>n. 0"
             "algo_init HighestCQI [Node ''B1'' BS, Node ''B2'' BS, Node ''B3'' BS] 1"]
  have "(\<forall>b v. serving_node st b = Some v \<longleftrightarrow> associated_bs st v = Some b)
        \<and> (\<forall>b. serving_node st b = None \<longleftrightarrow> (\<forall>v. associated_bs st v \<noteq> Some b))
        \<and> (\<forall>b1 b2 v. serving_node st b1 = Some v \<and> serving_node st b2 = Some v \<longrightarrow> b1 = b2)"
    using run by blast
  with s2 s3 show ?thesis
    unfolding run by simp
qed

subsection \<open>Arm tables along a sequence of bookkeeping calls\<close>

text \<open>
  With a non-negative time unit and bookkeeping calls at non-decreasing times, every reward
  added is a non-negative duration: the arm table of a bandit object keeps non-negative
  entries and a count for every reward key, so that every prediction is non-negative and
  above the value \<open>-1\<close> from which the exploitation scan starts.
\<close>

lemma arm_init_nonneg: "arm_nonneg a \<Longrightarrow> arm_nonneg (arm_init k a)"
  by (auto simp: arm_nonneg_def arm_init_def split: if_splits)

lemma arm_record_nonneg:
  "arm_nonneg a \<Longrightarrow> 0 \<le> r \<Longrightarrow> arm_record k r a = Inr a' \<Longrightarrow> arm_nonneg a'"
  by (auto simp: arm_nonneg_def arm_record_def split: option.splits if_splits)

lemma arm_nonneg_cong:
  "arm_total_reward a' = arm_total_reward a \<Longrightarrow> arm_total_count a' = arm_total_count a \<Longrightarrow>
     time_unit a' = time_unit a \<Longrightarrow> arm_nonneg a' = arm_nonneg a"
  by (simp add: arm_nonneg_def)

lemma bandit_confirmed_nonneg:
  assumes "bandit_report_conn_confirmed enc t b v q a = Inr a'" and "nonneg_upto now a"
    and "now \<le> t"
  shows "nonneg_upto t a'"
proof -
  from assms(1) obtain a1 where a1: "VSA_report_conn_confirmed t b v q a = Inr a1"
    and a': "a' = (arm_init (enc b v q) a1)\<lparr>arm_info := (arm_info (arm_init (enc b v q) a1))(v \<mapsto> (enc b v q, t))\<rparr>"
    by (auto simp: bandit_report_conn_confirmed_def Let_def split: sum.splits)
  note f = VSA_confirmed_frame [OF a1]
  from assms(2) f have "arm_nonneg a1"
    using arm_nonneg_cong [of a1 a] by (simp add: nonneg_upto_def)
  then have "arm_nonneg (arm_init (enc b v q) a1)" by (rule arm_init_nonneg)
  then have n: "arm_nonneg a'" unfolding a' by (simp add: arm_nonneg_def)
  have old: "\<And>w ctx t0. arm_info a w = Some (ctx, t0) \<Longrightarrow> t0 \<le> t"
  proof -
    fix w ctx t0 assume "arm_info a w = Some (ctx, t0)"
    with assms(2) have "t0 \<le> now" unfolding nonneg_upto_def by blast
    with assms(3) show "t0 \<le> t" by simp
  qed
  have "\<forall>w ctx t0. arm_info a' w = Some (ctx, t0) \<longrightarrow> t0 \<le> t"
    using old f unfolding a' by (auto simp: arm_init_frame split: if_splits)
  with n show ?thesis by (simp add: nonneg_upto_def)
qed

lemma bandit_lost_nonneg:
  assumes "bandit_report_conn_lost t b v a = Inr a'" and "nonneg_upto now a"
    and "now \<le> t"
  shows "nonneg_upto t a'"
proof -
  from assms(1) obtain a1 ctx t0 where a1: "VSA_report_conn_lost t b v a = Inr a1"
    and ai: "arm_info a1 v = Some (ctx, t0)"
    and r: "arm_record ctx (t - t0) a1 = Inr a'"
    by (auto simp: bandit_report_conn_lost_def split: sum.splits option.splits)
  note f = VSA_lost_frame [OF a1]
  note g = arm_record_frame [OF r]
  from assms(2) f have n1: "arm_nonneg a1"
    using arm_nonneg_cong [of a1 a] by (simp add: nonneg_upto_def)
  from ai f assms(2) have "t0 \<le> now" unfolding nonneg_upto_def by auto
  with assms(3) have "0 \<le> t - t0" by simp
  from arm_record_nonneg [OF n1 this r] have n: "arm_nonneg a'" .
  have old: "\<And>w ctx t0. arm_info a w = Some (ctx, t0) \<Longrightarrow> t0 \<le> t"
  proof -
    fix w ctx t0 assume "arm_info a w = Some (ctx, t0)"
    with assms(2) have "t0 \<le> now" unfolding nonneg_upto_def by blast
    with assms(3) show "t0 \<le> t" by simp
  qed
  have "\<forall>w ctx t0. arm_info a' w = Some (ctx, t0) \<longrightarrow> t0 \<le> t"
    using old f g by simp
  with n show ?thesis by (simp add: nonneg_upto_def)
qed

lemma run_events_nonneg:
  assumes "is_bandit a" and "nonneg_upto now a" and "sorted (now # map event_time evs)"
    and "run_events evs a = Inr a'"
  shows "arm_nonneg a'"
  using assms
proof (induction evs arbitrary: a now)
  case Nil
  then show ?case by (simp add: nonneg_upto_def)
next
  case (Cons ev evs)
  from Cons.prems(3) have le: "now \<le> event_time ev"
    and srt: "sorted (event_time ev # map event_time evs)"
    by simp_all
  show ?case
  proof (cases ev)
    case (Confirmed e t b w q)
    with Cons.prems obtain a1 where
      a1: "bandit_report_conn_confirmed (get_context e a) t b w q a = Inr a1"
      and rest: "run_events evs a1 = Inr a'"
      by (auto simp: report_conn_confirmed_def is_bandit_def split: sum.splits)
    have b1: "is_bandit a1"
      using Cons.prems(1) bandit_confirmed_step(1) [OF a1] by (simp add: is_bandit_def)
    from bandit_confirmed_nonneg [OF a1 Cons.prems(2)] le Confirmed
    have "nonneg_upto t a1" by simp
    from Cons.IH [OF b1 this _ rest] srt Confirmed show ?thesis by simp
  next
    case (Lost t b w)
    with Cons.prems obtain a1 where
      a1: "bandit_report_conn_lost t b w a = Inr a1"
      and rest: "run_events evs a1 = Inr a'"
      by (auto simp: report_conn_lost_def is_bandit_def split: sum.splits)
    have b1: "is_bandit a1"
      using Cons.prems(1) bandit_lost_step(1) [OF a1] by (simp add: is_bandit_def)
    from bandit_lost_nonneg [OF a1 Cons.prems(2)] le Lost
    have "nonneg_upto t a1" by simp
    from Cons.IH [OF b1 this _ rest] srt Lost show ?thesis by simp
  qed
qed

lemma run_events_exploit_hypotheses:
  assumes "is_bandit a0" and "arm_info a0 = Map.empty"
    and "arm_total_reward a0 = Map.empty" and "arm_total_count a0 = Map.empty"
    and "0 \<le> time_unit a0" and "sorted (map event_time evs)"
    and "run_events evs a0 = Inr a"
  shows "count_keys_present a \<and> arm_nonneg a"
proof -
  have sk: "same_keys a0" using assms(3,4) by (simp add: same_keys_def)
  have pk: "pending_ok a0" using assms(2) by (simp add: pending_ok_def)
  from run_events_bandit [OF assms(1) sk pk assms(7)] have "same_keys a" by simp
  then have c: "count_keys_present a" by (rule same_keys_count_keys)
  show ?thesis
  proof (cases evs)
    case Nil
    with assms(7) have "a = a0" by simp
    with assms(3,4,5) c show ?thesis by (simp add: arm_nonneg_def)
  next
    case (Cons ev evs')
    have "nonneg_upto (event_time ev) a0"
      using assms(2,3,4,5) by (simp add: nonneg_upto_def arm_nonneg_def)
    moreover have "sorted (event_time ev # map event_time evs)"
      using assms(6) Cons by simp
    ultimately have "arm_nonneg a"
      using run_events_nonneg [OF assms(1) _ _ assms(7)] by blast
    with c show ?thesis by simp
  qed
qed

subsection \<open>The pulled-arm counter\<close>

text \<open>
  When the loop counter is below a limit that is at most the number of beams, some beam
  is idle.
\<close>

lemma idle_beam_exists:
  assumes "int (length (filter (\<lambda>beam. serving beam \<noteq> None) beams)) < K"
    and "K \<le> int (length beams)"
  shows "\<exists>beam\<in>set beams. serving beam = None"
proof (rule ccontr)
  assume "\<not> (\<exists>beam\<in>set beams. serving beam = None)"
  then have "filter (\<lambda>beam. serving beam \<noteq> None) beams = beams" by simp
  with assms show False by simp
qed

lemma idle_filter_nonempty:
  "\<exists>beam\<in>set beams. serving beam = None \<Longrightarrow> filter (\<lambda>beam. serving beam = None) beams \<noteq> []"
  by (simp add: filter_empty_conv)

lemma bandit_phases:
  assumes bandit: "is_bandit a"
    and idle: "\<exists>beam\<in>set (all_beams a). serving beam = None"
  shows "(sim_time < exploration_stop_time a \<longrightarrow>
            do_pairing e sim_time serving assoc g a =
              Inr (fst (RandomSelection_do_pairing e serving assoc (all_beams a) g),
                   snd (RandomSelection_do_pairing e serving assoc (all_beams a) g),
                   a\<lparr>total_pulled := total_pulled a + 1\<rparr>))
       \<and> (\<not> sim_time < exploration_stop_time a \<and> count_keys_present a \<longrightarrow>
            do_pairing e sim_time serving assoc g a =
              Inr (map_option fst
                     (foldl (keep_step snd (\<lambda>p. - 1 < p)) None
                        (predicted (get_context e a) a
                           (candidates e serving assoc (all_beams a)))),
                   g, a\<lparr>total_pulled := total_pulled a + 1\<rparr>))
       \<and> (\<forall>pair g' a'. do_pairing e sim_time serving assoc g a = Inr (pair, g', a') \<longrightarrow>
            total_pulled a' = total_pulled a + 1)"
proof -
  let ?enc = "get_context e a"
  have dp: "do_pairing e sim_time serving assoc g a
              = bandit_do_pairing ?enc e sim_time serving assoc g a"
    using bandit by (auto simp: is_bandit_def do_pairing_def)
  from idle have ne: "filter (\<lambda>beam. serving beam = None) (all_beams a) \<noteq> []"
    by (rule idle_filter_nonempty)
  have p1: "sim_time < exploration_stop_time a \<longrightarrow>
            do_pairing e sim_time serving assoc g a =
              Inr (fst (RandomSelection_do_pairing e serving assoc (all_beams a) g),
                   snd (RandomSelection_do_pairing e serving assoc (all_beams a) g),
                   a\<lparr>total_pulled := total_pulled a + 1\<rparr>)"
    using bandit_explore [of sim_time a ?enc e serving assoc g] by (simp add: dp)
  have p2: "\<not> sim_time < exploration_stop_time a \<and> count_keys_present a \<longrightarrow>
            do_pairing e sim_time serving assoc g a =
              Inr (map_option fst
                     (foldl (keep_step snd (\<lambda>p. - 1 < p)) None
                        (predicted ?enc a (candidates e serving assoc (all_beams a)))),
                   g, a\<lparr>total_pulled := total_pulled a + 1\<rparr>)"
  proof
    assume h: "\<not> sim_time < exploration_stop_time a \<and> count_keys_present a"
    then have ex: "\<not> sim_time < exploration_stop_time a" and ok: "count_keys_present a"
      by simp_all
    from bandit_exploit_fold [OF ex ok, of ?enc e serving assoc g]
    obtain a' where r: "bandit_do_pairing ?enc e sim_time serving assoc g a
        = Inr (map_option fst
                (foldl (keep_step snd (\<lambda>p. - 1 < p)) None
                   (predicted ?enc a (candidates e serving assoc (all_beams a)))), g, a')"
      by blast
    from bandit_exploit_counter [OF ex r] ne
    have "a' = a\<lparr>total_pulled := total_pulled a + 1\<rparr>" by simp
    with r show "do_pairing e sim_time serving assoc g a =
              Inr (map_option fst
                     (foldl (keep_step snd (\<lambda>p. - 1 < p)) None
                        (predicted ?enc a (candidates e serving assoc (all_beams a)))),
                   g, a\<lparr>total_pulled := total_pulled a + 1\<rparr>)"
      by (simp add: dp)
  qed
  have p3: "\<forall>pair g' a'. do_pairing e sim_time serving assoc g a = Inr (pair, g', a') \<longrightarrow>
            total_pulled a' = total_pulled a + 1"
  proof (intro allI impI)
    fix pair g' a'
    assume r: "do_pairing e sim_time serving assoc g a = Inr (pair, g', a')"
    show "total_pulled a' = total_pulled a + 1"
    proof (cases "sim_time < exploration_stop_time a")
      case True
      with p1 r show ?thesis by simp
    next
      case False
      from r have "bandit_do_pairing ?enc e sim_time serving assoc g a = Inr (pair, g', a')"
        by (simp add: dp)
      from bandit_exploit_counter [OF False this] ne show ?thesis by simp
    qed
  qed
  from p1 p2 p3 show ?thesis by (intro conjI)
qed


text \<open>
  The allocation loop calls \<^verbatim>\<open>do_pairing\<close> only while its counter is below the limit, so
  with a limit of at most the number of beams every call it makes finds an idle beam.
  Over one run of the loop on a bandit object the counter \<open>total_pulled\<close> grows by the
  number of calls made: one for each connection added, and one more when the loop ended on
  a call that returned \<^verbatim>\<open>None\<close> (the number of serving beams is then still below the limit).
\<close>

lemma do_pairing_frame:
  assumes "do_pairing e sim_time serving assoc g a = Inr (pair, g', a')"
  shows "a' = a \<or> a' = a\<lparr>total_pulled := total_pulled a + 1\<rparr>"
proof (cases "is_bandit a")
  case False
  with assms show ?thesis
    by (cases "cls a") (auto simp: is_bandit_def do_pairing_def split: prod.splits)
next
  case True
  let ?enc = "get_context e a"
  from True assms have r: "bandit_do_pairing ?enc e sim_time serving assoc g a = Inr (pair, g', a')"
    by (auto simp: is_bandit_def do_pairing_def)
  show ?thesis
  proof (cases "sim_time < exploration_stop_time a")
    case True
    from r [unfolded bandit_explore [OF True]] show ?thesis by simp
  next
    case False
    from bandit_exploit_counter [OF False r] show ?thesis by (simp split: if_splits)
  qed
qed

lemma arm_init_total_pulled: "total_pulled (arm_init k a) = total_pulled a"
  by (simp add: arm_init_def)

lemma arm_record_total_pulled: "arm_record k r a = Inr a' \<Longrightarrow> total_pulled a' = total_pulled a"
  by (auto simp: arm_record_def split: option.splits)

lemma report_conn_confirmed_frame:
  assumes "report_conn_confirmed e t b v q a = Inr a'"
  shows "all_beams a' = all_beams a \<and> total_pulled a' = total_pulled a \<and> cls a' = cls a"
proof (cases "is_bandit a")
  case False
  with assms have "VSA_report_conn_confirmed t b v q a = Inr a'"
    using not_bandit_cases by simp
  from VSA_confirmed_frame [OF this] show ?thesis by simp
next
  case True
  with assms have r: "bandit_report_conn_confirmed (get_context e a) t b v q a = Inr a'"
    using is_bandit_cases by simp
  then obtain a1 where a1: "VSA_report_conn_confirmed t b v q a = Inr a1"
    and a': "a' = (arm_init (get_context e a b v q) a1)
                    \<lparr>arm_info := (arm_info (arm_init (get_context e a b v q) a1))
                                   (v \<mapsto> (get_context e a b v q, t))\<rparr>"
    by (auto simp: bandit_report_conn_confirmed_def Let_def split: sum.splits)
  from VSA_confirmed_frame [OF a1] show ?thesis
    by (simp add: a' arm_init_stats arm_init_total_pulled arm_init_frame)
qed

lemma report_conn_lost_frame:
  assumes "report_conn_lost t b v a = Inr a'"
  shows "all_beams a' = all_beams a \<and> total_pulled a' = total_pulled a \<and> cls a' = cls a"
proof (cases "is_bandit a")
  case False
  with assms have "VSA_report_conn_lost t b v a = Inr a'"
    using not_bandit_cases by simp
  from VSA_lost_frame [OF this] show ?thesis by simp
next
  case True
  with assms have r: "bandit_report_conn_lost t b v a = Inr a'"
    using is_bandit_cases by simp
  then obtain a1 ctx t0 where a1: "VSA_report_conn_lost t b v a = Inr a1"
    and rec: "arm_record ctx (t - t0) a1 = Inr a'"
    by (auto simp: bandit_report_conn_lost_def split: sum.splits option.splits)
  from VSA_lost_frame [OF a1] arm_record_stats [OF rec] arm_record_total_pulled [OF rec]
    arm_record_frame [OF rec]
  show ?thesis by simp
qed

lemma count_after_connect:
  assumes "distinct beams" and "b \<in> set beams" and "serving b = None"
  shows "length (filter (\<lambda>beam. (serving(b \<mapsto> v)) beam \<noteq> None) beams)
           = Suc (length (filter (\<lambda>beam. serving beam \<noteq> None) beams))"
  using assms
proof (induction beams)
  case Nil
  then show ?case by simp
next
  case (Cons x beams)
  show ?case
  proof (cases "x = b")
    case True
    with Cons.prems have "b \<notin> set beams" by simp
    then have "filter (\<lambda>beam. (serving(b \<mapsto> v)) beam \<noteq> None) beams
                 = filter (\<lambda>beam. serving beam \<noteq> None) beams"
      by (intro filter_cong) auto
    with True Cons.prems(3) show ?thesis by simp
  next
    case False
    with Cons.prems have "distinct beams" "b \<in> set beams" by simp_all
    from Cons.IH [OF this Cons.prems(3)] False show ?thesis by simp
  qed
qed

lemma loop_ok_idle:
  assumes "loop_ok K n st" and "n < K"
  shows "\<exists>beam\<in>set (all_beams (my_algorithm st)). serving_node st beam = None"
  using assms idle_beam_exists [of "serving_node st" "bs_beams st" K]
  by (simp add: loop_ok_def count_active_def)

lemma loop_ok_step:
  assumes ok: "loop_ok K n st"
    and dp: "do_pairing e sim_time (serving_node st) (associated_bs st)
               (random_source st) (my_algorithm st) = Inr (Some (beam, vehicle, cqi), g', a')"
    and rc: "report_conn_confirmed e sim_time beam vehicle cqi a' = Inr a''"
  shows "loop_ok K (n + 1)
           ((connect_vehicle vehicle sim_time cqi beam
               (st\<lparr>my_algorithm := a', random_source := g'\<rparr>))\<lparr>my_algorithm := a''\<rparr>)"
proof -
  from do_pairing_frame [OF dp] have b1: "all_beams a' = all_beams (my_algorithm st)" by auto
  from report_conn_confirmed_frame [OF rc] have b2: "all_beams a'' = all_beams a'" by simp
  from do_pairing_beam [OF dp] ok have bin: "beam \<in> set (bs_beams st)"
    by (simp add: loop_ok_def)
  from do_pairing_sound [OF dp] have idle: "serving_node st beam = None" by simp
  from ok have d: "distinct (bs_beams st)" by (simp add: loop_ok_def)
  from count_after_connect [where serving = "serving_node st", OF d bin idle, of vehicle] ok
  show ?thesis
    using b1 b2 by (simp add: loop_ok_def count_active_def connect_vehicle_def connect_bs_def)
qed


lemma fill_loop_counts:
  assumes "loop_ok K n st" and "is_bandit (my_algorithm st)"
    and "fill_loop e sim_time K n st = Inr st'"
  shows "total_pulled (my_algorithm st')
           = total_pulled (my_algorithm st) + (count_active st' - n)
             + (if count_active st' < K then 1 else 0)
         \<and> loop_ok K (count_active st') st'"
  using assms
proof (induction e sim_time K n st rule: fill_loop.induct)
  case (1 e sim_time K n st)
  note ok = "1.prems"(1) and bandit = "1.prems"(2) and run = "1.prems"(3)
  from ok have n: "n = count_active st" by (simp add: loop_ok_def)
  show ?case
  proof (cases "n < K")
    case False
    with run have "st' = st" by (simp add: fill_loop_stop)
    with False n ok show ?thesis by simp
  next
    case True
    let ?a = "my_algorithm st"
    from run True obtain r where
      dp: "do_pairing e sim_time (serving_node st) (associated_bs st) (random_source st) ?a = Inr r"
      by (auto simp: fill_loop_step split: sum.splits)
    obtain pair g' a' where r: "r = (pair, g', a')" by (cases r)
    note dp' = dp [unfolded r]
    from bandit_phases [OF bandit loop_ok_idle [OF ok True], of sim_time e "associated_bs st"
        "random_source st"] dp'
    have tp: "total_pulled a' = total_pulled ?a + 1" by blast
    from do_pairing_frame [OF dp'] have fr: "all_beams a' = all_beams ?a" "cls a' = cls ?a"
      by auto
    show ?thesis
    proof (cases pair)
      case None
      with run True dp' have st': "st' = st\<lparr>my_algorithm := a', random_source := g'\<rparr>"
        by (simp add: fill_loop_step)
      have c: "count_active st' = count_active st" by (simp add: st' count_active_def)
      have "loop_ok K (count_active st') st'"
        using ok fr by (simp add: loop_ok_def st' count_active_def)
      with c n True tp show ?thesis by (simp add: st')
    next
      case (Some c)
      obtain beam vehicle cqi where c: "c = (beam, vehicle, cqi)" by (cases c)
      note dp'' = dp' [unfolded Some c]
      let ?st1 = "connect_vehicle vehicle sim_time cqi beam
                    (st\<lparr>my_algorithm := a', random_source := g'\<rparr>)"
      have a1: "my_algorithm ?st1 = a'" by (simp add: connect_vehicle_def connect_bs_def)
      from run True dp'' obtain a'' where
        rc: "report_conn_confirmed e sim_time beam vehicle cqi (my_algorithm ?st1) = Inr a''"
        and rest: "fill_loop e sim_time K (n + 1) (?st1\<lparr>my_algorithm := a''\<rparr>) = Inr st'"
        by (auto simp: fill_loop_step Let_def split: sum.splits)
      from rc a1 have rc': "report_conn_confirmed e sim_time beam vehicle cqi a' = Inr a''"
        by simp
      note f2 = report_conn_confirmed_frame [OF rc']
      have ok2: "loop_ok K (n + 1) (?st1\<lparr>my_algorithm := a''\<rparr>)"
        by (rule loop_ok_step [OF ok dp'' rc'])
      have b2: "is_bandit (my_algorithm (?st1\<lparr>my_algorithm := a''\<rparr>))"
        using bandit fr f2 by (simp add: is_bandit_def)
      from "1.IH" [OF True dp'' refl refl refl refl refl refl rc ok2 b2 rest]
      have "total_pulled (my_algorithm st')
              = total_pulled a'' + (count_active st' - (n + 1))
                + (if count_active st' < K then 1 else 0)"
        and l: "loop_ok K (count_active st') st'"
        by simp_all
      with f2 tp l show ?thesis by simp
    qed
  qed
qed

lemma release_loop_frame:
  "release_loop e sim_time beams st = Inr st' \<Longrightarrow>
     bs_beams st' = bs_beams st \<and> max_active_beam st' = max_active_beam st
     \<and> all_beams (my_algorithm st') = all_beams (my_algorithm st)
     \<and> total_pulled (my_algorithm st') = total_pulled (my_algorithm st)
     \<and> cls (my_algorithm st') = cls (my_algorithm st)"
proof (induction beams arbitrary: st)
  case Nil
  then show ?case by simp
next
  case (Cons beam beams)
  show ?case
  proof (cases "serving_node st beam")
    case None
    with Cons show ?thesis by simp
  next
    case (Some vehicle)
    show ?thesis
    proof (cases "send_hello_to e beam vehicle")
      case (Some q)
      with Cons \<open>serving_node st beam = Some vehicle\<close> show ?thesis by simp
    next
      case None
      note sv = \<open>serving_node st beam = Some vehicle\<close>
      let ?st1 = "st\<lparr>associated_bs := (associated_bs st)(vehicle := None),
                      serving_node := (serving_node st)(beam := None)\<rparr>"
      have l: "lost_vehicle sim_time beam st = Inr ?st1" by (rule lost_vehicle_eq [OF sv])
      from Cons.prems sv None l obtain a' where
        r: "report_conn_lost sim_time beam vehicle (my_algorithm st) = Inr a'"
        and rest: "release_loop e sim_time beams (?st1\<lparr>my_algorithm := a'\<rparr>) = Inr st'"
        by (auto split: sum.splits)
      from Cons.IH [OF rest] report_conn_lost_frame [OF r] show ?thesis by simp
    qed
  qed
qed

lemma release_then_loop_ok:
  assumes "program_ok st" and "release_loop e sim_time (bs_beams st) st = Inr st1"
  shows "loop_ok (max_active_beam st1) (count_active st1) st1"
  using assms release_loop_frame [OF assms(2)] by (simp add: program_ok_def loop_ok_def)

lemma fill_loop_frame:
  "fill_loop e sim_time K n st = Inr st' \<Longrightarrow>
     bs_beams st' = bs_beams st \<and> max_active_beam st' = max_active_beam st
     \<and> all_beams (my_algorithm st') = all_beams (my_algorithm st)"
proof (induction e sim_time K n st rule: fill_loop.induct)
  case (1 e sim_time K n st)
  show ?case
  proof (cases "n < K")
    case False
    with "1.prems" show ?thesis by (simp add: fill_loop_stop)
  next
    case True
    from "1.prems" True obtain r where
      dp: "do_pairing e sim_time (serving_node st) (associated_bs st) (random_source st)
             (my_algorithm st) = Inr r"
      by (auto simp: fill_loop_step split: sum.splits)
    obtain pair g' a' where r: "r = (pair, g', a')" by (cases r)
    note dp' = dp [unfolded r]
    from do_pairing_frame [OF dp'] have fr: "all_beams a' = all_beams (my_algorithm st)" by auto
    show ?thesis
    proof (cases pair)
      case None
      with "1.prems" True dp' fr show ?thesis by (auto simp: fill_loop_step)
    next
      case (Some c)
      obtain beam vehicle cqi where c: "c = (beam, vehicle, cqi)" by (cases c)
      note dp'' = dp' [unfolded Some c]
      let ?st1 = "connect_vehicle vehicle sim_time cqi beam
                    (st\<lparr>my_algorithm := a', random_source := g'\<rparr>)"
      have a1: "my_algorithm ?st1 = a'" by (simp add: connect_vehicle_def connect_bs_def)
      from "1.prems" True dp'' obtain a'' where
        rc: "report_conn_confirmed e sim_time beam vehicle cqi (my_algorithm ?st1) = Inr a''"
        and rest: "fill_loop e sim_time K (n + 1) (?st1\<lparr>my_algorithm := a''\<rparr>) = Inr st'"
        by (auto simp: fill_loop_step Let_def split: sum.splits)
      from rc a1 have "report_conn_confirmed e sim_time beam vehicle cqi a' = Inr a''" by simp
      note f2 = report_conn_confirmed_frame [OF this]
      from "1.IH" [OF True dp'' refl refl refl refl refl refl rc rest] f2 fr
      show ?thesis by (simp add: connect_vehicle_def connect_bs_def)
    qed
  qed
qed

lemma do_mobility_program_ok:
  assumes "program_ok st" and "do_mobility e sim_time st = Inr st'"
  shows "program_ok st'"
proof -
  from assms(2) obtain st1 where r: "release_loop e sim_time (bs_beams st) st = Inr st1"
    and f: "fill_loop e sim_time (max_active_beam st1) (count_active st1) st1 = Inr st'"
    by (auto simp: do_mobility_def split: sum.splits)
  from release_loop_frame [OF r] fill_loop_frame [OF f] assms(1)
  show ?thesis by (simp add: program_ok_def)
qed

lemma run_steps_program_ok:
  "program_ok st \<Longrightarrow> run_steps steps st = Inr st' \<Longrightarrow> program_ok st'"
proof (induction steps arbitrary: st)
  case Nil
  then show ?case by simp
next
  case (Cons step steps)
  obtain e sim_time where step: "step = (e, sim_time)" by (cases step)
  from Cons.prems(2) obtain st1 where m: "do_mobility e sim_time st = Inr st1"
    and r: "run_steps steps st1 = Inr st'"
    by (auto simp: step split: sum.splits)
  from Cons.IH [OF do_mobility_program_ok [OF Cons.prems(1) m] r] show ?case .
qed

lemma scenario_init_program_ok:
  assumes "distinct beams" and "K \<le> int (length beams)"
  shows "program_ok
           (scenario_init beams K (mab_setting stop_time use_speed_opt (algo_init c beams tu)) g)"
  using assms
  by (cases stop_time; cases use_speed_opt)
     (simp_all add: program_ok_def scenario_init_def mab_setting_def algo_init_def)

lemma do_mobility_counts_every_call:
  assumes "program_ok st" and "is_bandit (my_algorithm st)"
    and "do_mobility e sim_time st = Inr st'"
  shows "\<exists>st1. release_loop e sim_time (bs_beams st) st = Inr st1
           \<and> total_pulled (my_algorithm st')
               = total_pulled (my_algorithm st) + (count_active st' - count_active st1)
                 + (if count_active st' < max_active_beam st then 1 else 0)"
proof -
  from assms(3) obtain st1 where r: "release_loop e sim_time (bs_beams st) st = Inr st1"
    and f: "fill_loop e sim_time (max_active_beam st1) (count_active st1) st1 = Inr st'"
    by (auto simp: do_mobility_def split: sum.splits)
  note fr = release_loop_frame [OF r]
  have b1: "is_bandit (my_algorithm st1)" using assms(2) fr by (simp add: is_bandit_def)
  from fill_loop_counts [OF release_then_loop_ok [OF assms(1) r] b1 f] fr r
  show ?thesis by simp
qed


text \<open>
  C3. For a call of \<^verbatim>\<open>do_pairing\<close> on a bandit object (\<^verbatim>\<open>CMAB\<close> or \<^verbatim>\<open>MAB\<close>) with an idle
  beam, as every call of the allocation loop is: before the exploration stop time the
  result is the one of \<^verbatim>\<open>RandomSelection.do_pairing\<close> on the same beams and random
  draws; from the stop time on (with a count for every reward key) the random source is
  not used and the result is the first candidate of highest predicted reward among the
  candidates with a prediction, if there is one; and in both phases the call that returns
  leaves \<open>total_pulled\<close> incremented by exactly one, whether or not a pair is returned.
\<close>

theorem bandit_two_phases:
  assumes bandit: "is_bandit a"
    and idle: "\<exists>beam\<in>set (all_beams a). serving beam = None"
  shows "(sim_time < exploration_stop_time a \<longrightarrow>
            do_pairing e sim_time serving assoc g a =
              Inr (fst (RandomSelection_do_pairing e serving assoc (all_beams a) g),
                   snd (RandomSelection_do_pairing e serving assoc (all_beams a) g),
                   a\<lparr>total_pulled := total_pulled a + 1\<rparr>))
       \<and> (\<not> sim_time < exploration_stop_time a \<and> count_keys_present a \<longrightarrow>
            do_pairing e sim_time serving assoc g a =
              Inr (map_option fst
                     (foldl (keep_step snd (\<lambda>p. - 1 < p)) None
                        (predicted (get_context e a) a
                           (candidates e serving assoc (all_beams a)))),
                   g, a\<lparr>total_pulled := total_pulled a + 1\<rparr>))
       \<and> (\<forall>pair g' a'. do_pairing e sim_time serving assoc g a = Inr (pair, g', a') \<longrightarrow>
            total_pulled a' = total_pulled a + 1)"
  using assms by (rule bandit_phases)

theorem bandit_two_phases_witness:
  "is_bandit algo3
   \<and> (\<exists>beam\<in>set (all_beams algo3). (Map.empty :: node \<rightharpoonup> node) beam = None)
   \<and> do_pairing env3 5 Map.empty Map.empty (\<lambda>n. 0) algo3
      = Inr (Some (Node ''B2'' BS, Node ''C2'' Vehicle, 25), (\<lambda>n. 0),
             algo3\<lparr>total_pulled := 1\<rparr>)
   \<and> do_pairing env3 5 Map.empty Map.empty (\<lambda>n. 0) (mab_setting (Some 10) None algo3)
      = Inr (fst (RandomSelection_do_pairing env3 Map.empty Map.empty (all_beams algo3) (\<lambda>n. 0)),
             snd (RandomSelection_do_pairing env3 Map.empty Map.empty (all_beams algo3) (\<lambda>n. 0)),
             (mab_setting (Some 10) None algo3)\<lparr>total_pulled := 1\<rparr>)
   \<and> (\<exists>g' a'.
         do_pairing env3 5 Map.empty Map.empty (\<lambda>n. 0)
           (algo_init MAB [Node ''B1'' BS, Node ''B2'' BS, Node ''B3'' BS] 1) = Inr (None, g', a')
         \<and> total_pulled a' = 1)"
proof -
  let ?a0 = "algo_init MAB [Node ''B1'' BS, Node ''B2'' BS, Node ''B3'' BS] 1"
  have b0: "is_bandit ?a0" by (simp add: is_bandit_def algo_init_def)
  have i0: "\<exists>beam\<in>set (all_beams ?a0). (Map.empty :: node \<rightharpoonup> node) beam = None"
    by (auto simp: algo_init_def)
  have tp0: "total_pulled ?a0 = 0" by (simp add: algo_init_def)
  from bandit_two_phases [OF b0 i0, of 5 env3 Map.empty "\<lambda>n. 0"] tp0
  have r3: "\<forall>pair g' a'.
         do_pairing env3 5 Map.empty Map.empty (\<lambda>n. 0) ?a0 = Inr (pair, g', a')
         \<longrightarrow> total_pulled a' = 1"
    by simp
  have r4: "\<exists>g' a'. do_pairing env3 5 Map.empty Map.empty (\<lambda>n. 0) ?a0 = Inr (None, g', a')"
    by (simp add: do_pairing_def algo_init_def get_context_def bandit_exploit_unfold
        exploit_inner_keep [where assoc = Map.empty] env3_def get_past_reward_def
        MAB_get_context_def)
  have b: "is_bandit algo3" and b': "is_bandit (mab_setting (Some 10) None algo3)"
    by (simp_all add: is_bandit_def algo3_def algo_init_def mab_setting_def)
  have i: "\<exists>beam\<in>set (all_beams algo3). (Map.empty :: node \<rightharpoonup> node) beam = None"
    and i': "\<exists>beam\<in>set (all_beams (mab_setting (Some 10) None algo3)).
               (Map.empty :: node \<rightharpoonup> node) beam = None"
    by (auto simp: algo3_def algo_init_def mab_setting_def)
  have k: "count_keys_present algo3"
    by (simp add: count_keys_present_def algo3_def algo_init_def)
  have t: "\<not> (5::real) < exploration_stop_time algo3"
    and t': "(5::real) < exploration_stop_time (mab_setting (Some 10) None algo3)"
    and ab: "all_beams (mab_setting (Some 10) None algo3) = all_beams algo3"
    and tp: "total_pulled algo3 = 0" "total_pulled (mab_setting (Some 10) None algo3) = 0"
    by (simp_all add: algo3_def algo_init_def mab_setting_def)
  have sel: "map_option fst
               (foldl (keep_step snd (\<lambda>p. - 1 < p)) None
                  (predicted (get_context env3 algo3) algo3
                     (candidates env3 Map.empty Map.empty (all_beams algo3))))
             = Some (Node ''B2'' BS, Node ''C2'' Vehicle, 25)"
    by (simp add: algo3_def algo_init_def predicted_def prediction_def map_filter_simps
        candidates_def env3_def get_context_def MAB_get_context_def get_past_reward_def
        keep_step_None keep_step_Some)
  from bandit_two_phases [OF b i, of 5 env3 Map.empty "\<lambda>n. 0"] t k sel tp
  have r1: "do_pairing env3 5 Map.empty Map.empty (\<lambda>n. 0) algo3
      = Inr (Some (Node ''B2'' BS, Node ''C2'' Vehicle, 25), (\<lambda>n. 0),
             algo3\<lparr>total_pulled := 1\<rparr>)"
    by simp
  from bandit_two_phases [OF b' i', of 5 env3 Map.empty "\<lambda>n. 0"] t' ab tp
  have r2: "do_pairing env3 5 Map.empty Map.empty (\<lambda>n. 0) (mab_setting (Some 10) None algo3)
      = Inr (fst (RandomSelection_do_pairing env3 Map.empty Map.empty (all_beams algo3) (\<lambda>n. 0)),
             snd (RandomSelection_do_pairing env3 Map.empty Map.empty (all_beams algo3) (\<lambda>n. 0)),
             (mab_setting (Some 10) None algo3)\<lparr>total_pulled := 1\<rparr>)"
    by simp
  from r3 r4
  have r5: "\<exists>g' a'. do_pairing env3 5 Map.empty Map.empty (\<lambda>n. 0) ?a0 = Inr (None, g', a')
              \<and> total_pulled a' = 1"
    by blast
  from b i r1 r2 r5 show ?thesis by (intro conjI)
qed

end
